theory Spec2Isabelle
  imports Main "HOL-Library.Word" "HOL-Library.Multiset"
begin

unbundle bit_operations_syntax

section \<open>JavaScript values used by the embedding\<close>

text \<open>
  A JavaScript string is a sequence of UTF-16 code units; \<open>charCodeAt\<close> reads one
  of them as a number in \<open>[0, 65536)\<close>.  Keys and image ids are such strings.
  Free text that is only passed through (descriptions, error messages) is a HOL
  \<open>string\<close>.
\<close>

type_synonym jsstring = "16 word list"

definition js :: "string \<Rightarrow> jsstring" where
  "js s = map (\<lambda>c. of_nat (of_char c)) s"

text \<open>
  \<open>ToInt32\<close> of ECMAScript: the number modulo \<open>2^32\<close>, read as a signed
  32-bit value.  The operators \<open><<\<close> and \<open>&\<close> apply it to their operands
  and to their result; \<open>+\<close> and \<open>-\<close> are exact on the integers that occur
  here (all far below \<open>2^53\<close>).
\<close>

definition ToInt32 :: "int \<Rightarrow> int" where
  "ToInt32 x = (let m = x mod 2 ^ 32 in if 2 ^ 31 \<le> m then m - 2 ^ 32 else m)"

definition shl32 :: "int \<Rightarrow> nat \<Rightarrow> int" where
  "shl32 x n = ToInt32 (ToInt32 x * 2 ^ n)"

definition and32 :: "int \<Rightarrow> int \<Rightarrow> int" where
  "and32 x y = ToInt32 (ToInt32 x AND ToInt32 y)"

section \<open>The shard store (lib/distributed-storage.ts)\<close>

record 'v StoredItem =
  key_i :: jsstring
  data_i :: 'v
  timestamp :: nat
  partition_i :: nat
  isReplica :: "bool option"
  primaryPartition :: "nat option"

record 'v Partition =
  id_p :: nat
  data_p :: "jsstring \<rightharpoonup> 'v StoredItem"
  size_p :: nat
  itemCount :: nat

text \<open>
  \<open>partitions\<close> is a \<open>Map<number, Partition>\<close> whose keys are \<open>0 .. P-1\<close>,
  inserted in that order by the constructor and never removed: a list indexed by
  the key, which is also the order \<open>forEach\<close> visits.
\<close>

record 'v DistributedStorage =
  partitions :: "'v Partition list"
  partitionCount :: nat
  replicationFactor :: nat

datatype error =
  TypeError
  | KeyNotFound jsstring nat

definition DistributedStorage_new :: "nat \<Rightarrow> nat \<Rightarrow> 'v DistributedStorage" where
  "DistributedStorage_new P R =
     \<lparr> partitions = map (\<lambda>i. \<lparr> id_p = i, data_p = Map.empty, size_p = 0, itemCount = 0 \<rparr>) [0..<P],
       partitionCount = P,
       replicationFactor = R \<rparr>"

text \<open>The loop body of \<open>getPartition\<close>: \<open>hash = (hash << 5) - hash + char; hash = hash & hash\<close>.\<close>

definition hash_step :: "int \<Rightarrow> 16 word \<Rightarrow> int" where
  "hash_step hash ch = (let h = shl32 hash 5 - hash + uint ch in and32 h h)"

definition key_hash :: "jsstring \<Rightarrow> int" where
  "key_hash k = foldl hash_step 0 k"

text \<open>
  \<open>Math.abs(hash) % partitionCount\<close>.  With \<open>partitionCount = 0\<close> the remainder
  is \<open>NaN\<close>, modelled as \<open>None\<close>.
\<close>

definition getPartition :: "'v DistributedStorage \<Rightarrow> jsstring \<Rightarrow> nat option" where
  "getPartition s k =
     (if partitionCount s = 0 then None
      else Some (nat (\<bar>key_hash k\<bar> mod int (partitionCount s))))"

text \<open>\<open>this.partitions.get(i)\<close>: \<open>undefined\<close> for a key that was never set.\<close>

definition partitions_get :: "'v DistributedStorage \<Rightarrow> nat \<Rightarrow> 'v Partition option" where
  "partitions_get s i = (if i < length (partitions s) then Some (partitions s ! i) else None)"

text \<open>
  One round of the replication loop of \<open>store\<close>, for loop index \<open>i\<close>.  The clock
  \<open>now\<close> gives the value of \<open>Date.now()\<close> at the \<open>i\<close>-th write of the call.
\<close>

definition store_replica ::
  "(nat \<Rightarrow> nat) \<Rightarrow> jsstring \<Rightarrow> 'v \<Rightarrow> nat \<Rightarrow> nat \<Rightarrow> 'v DistributedStorage \<Rightarrow> error + 'v DistributedStorage"
where
  "store_replica now k d primary i s =
     (let replicaPartition = (primary + i) mod partitionCount s in
      case partitions_get s replicaPartition of
        None \<Rightarrow> Inl TypeError
      | Some replica \<Rightarrow>
          Inr (s\<lparr> partitions := (partitions s)[replicaPartition :=
                 replica\<lparr> data_p := (data_p replica)(k \<mapsto>
                   \<lparr> key_i = k, data_i = d, timestamp = now i, partition_i = replicaPartition,
                     isReplica = Some True, primaryPartition = Some primary \<rparr>) \<rparr>] \<rparr>))"

fun store_replicas ::
  "(nat \<Rightarrow> nat) \<Rightarrow> jsstring \<Rightarrow> 'v \<Rightarrow> nat \<Rightarrow> nat list \<Rightarrow> 'v DistributedStorage \<Rightarrow> error + 'v DistributedStorage"
where
  "store_replicas now k d primary [] s = Inr s"
| "store_replicas now k d primary (i # is) s =
     (case store_replica now k d primary i s of
        Inl e \<Rightarrow> Inl e
      | Inr s' \<Rightarrow> store_replicas now k d primary is s')"

text \<open>
  \<open>store(key, data)\<close>.  \<open>len d\<close> stands for \<open>JSON.stringify(data).length\<close>, a
  builtin applied to a value of type \<open>any\<close>.  A \<open>TypeError\<close> is what reading
  \<open>.data\<close> of an \<open>undefined\<close> partition throws.
\<close>

definition store ::
  "(nat \<Rightarrow> nat) \<Rightarrow> ('v \<Rightarrow> nat) \<Rightarrow> 'v DistributedStorage \<Rightarrow> jsstring \<Rightarrow> 'v \<Rightarrow> error + 'v DistributedStorage"
where
  "store now len s k d =
     (case getPartition s k of
        None \<Rightarrow> Inl TypeError
      | Some primary \<Rightarrow>
          (case partitions_get s primary of
             None \<Rightarrow> Inl TypeError
           | Some part \<Rightarrow>
               store_replicas now k d primary [1..<replicationFactor s]
                 (s\<lparr> partitions := (partitions s)[primary :=
                      part\<lparr> data_p := (data_p part)(k \<mapsto>
                          \<lparr> key_i = k, data_i = d, timestamp = now 0, partition_i = primary,
                            isReplica = None, primaryPartition = None \<rparr>),
                        itemCount := itemCount part + 1,
                        size_p := size_p part + len d \<rparr>] \<rparr>)))"

definition retrieve :: "'v DistributedStorage \<Rightarrow> jsstring \<Rightarrow> error + 'v" where
  "retrieve s k =
     (case getPartition s k of
        None \<Rightarrow> Inl TypeError
      | Some partitionId \<Rightarrow>
          (case partitions_get s partitionId of
             None \<Rightarrow> Inl TypeError
           | Some part \<Rightarrow>
               (case data_p part k of
                  None \<Rightarrow> Inl (KeyNotFound k partitionId)
                | Some item \<Rightarrow> Inr (data_i item))))"

text \<open>
  \<open>getStats()\<close>.  The \<open>sizeKB\<close> field, a formatted floating-point string, is
  left out.
\<close>

record PartitionStat =
  id_st :: nat
  itemCount_st :: nat
  size_st :: nat

record StorageStats =
  totalPartitions :: nat
  replicationFactor_st :: nat
  partitions_st :: "PartitionStat list"
  totalItems :: nat
  totalSize :: nat

definition getStats :: "'v DistributedStorage \<Rightarrow> StorageStats" where
  "getStats s =
     foldl (\<lambda>stats (i, part).
              stats\<lparr> partitions_st := partitions_st stats @
                        [\<lparr> id_st = i, itemCount_st = itemCount part, size_st = size_p part \<rparr>],
                     totalItems := totalItems stats + itemCount part,
                     totalSize := totalSize stats + size_p part \<rparr>)
       \<lparr> totalPartitions = partitionCount s, replicationFactor_st = replicationFactor s,
         partitions_st = [], totalItems = 0, totalSize = 0 \<rparr>
       (zip [0..<length (partitions s)] (partitions s))"

text \<open>
  The partitioner as the specification words it: the recurrence
  \<open>h = ((h << 5) - h) + c\<close> in 32-bit arithmetic, read as a signed value, then the
  absolute value modulo \<open>P\<close>.
\<close>

definition spec_hash :: "jsstring \<Rightarrow> 32 word" where
  "spec_hash k = foldl (\<lambda>h c. (push_bit 5 h - h) + ucast c) 0 k"

definition spec_partition :: "nat \<Rightarrow> jsstring \<Rightarrow> nat" where
  "spec_partition P k = nat \<bar>sint (spec_hash k)\<bar> mod P"

text \<open>The constructor builds one partition per key, and no method changes that.\<close>

definition wf_storage :: "'v DistributedStorage \<Rightarrow> bool" where
  "wf_storage s = (length (partitions s) = partitionCount s)"

text \<open>A sequence of \<open>store\<close> calls, each with its own clock; it stops at the first throw.\<close>

fun store_all ::
  "('v \<Rightarrow> nat) \<Rightarrow> ((nat \<Rightarrow> nat) \<times> jsstring \<times> 'v) list \<Rightarrow> 'v DistributedStorage \<Rightarrow> error + 'v DistributedStorage"
where
  "store_all len [] s = Inr s"
| "store_all len ((now, k, d) # calls) s =
     (case store now len s k d of
        Inl e \<Rightarrow> Inl e
      | Inr s' \<Rightarrow> store_all len calls s')"

section \<open>Partition assignment on the bulk-ingest path (api/ingest/route.ts)\<close>

text \<open>
  \<open>crypto.createHash('md5').update(buffer).digest()[0] % 8\<close>.  The digest function
  belongs to the platform and is a parameter; it returns the digest's bytes.  Reading
  index 0 of an empty buffer gives \<open>undefined\<close> and the remainder \<open>NaN\<close>, modelled
  as \<open>None\<close>.
\<close>

definition ingest_partition :: "(8 word list \<Rightarrow> 8 word list) \<Rightarrow> 8 word list \<Rightarrow> nat option" where
  "ingest_partition md5 buffer =
     (case md5 buffer of [] \<Rightarrow> None | b # _ \<Rightarrow> Some (unat b mod 8))"

section \<open>The describer client (lib/image-processor.ts)\<close>

record ImageProcessor =
  ollamaUrl :: string
  modelName :: string

text \<open>
  The constructor: \<open>ollamaUrl || process.env.OLLAMA_URL || "http://ollama:11434"\<close>;
  an absent or empty string is falsy.
\<close>

definition ImageProcessor_new :: "string option \<Rightarrow> string option \<Rightarrow> ImageProcessor" where
  "ImageProcessor_new url env_url =
     \<lparr> ollamaUrl =
         (case url of
            Some u \<Rightarrow> if u \<noteq> [] then u
                      else (case env_url of Some e \<Rightarrow> if e \<noteq> [] then e else ''http://ollama:11434''
                            | None \<Rightarrow> ''http://ollama:11434'')
          | None \<Rightarrow> (case env_url of Some e \<Rightarrow> if e \<noteq> [] then e else ''http://ollama:11434''
                      | None \<Rightarrow> ''http://ollama:11434'')),
       modelName = ''llava:latest'' \<rparr>"

text \<open>
  What the HTTP call to the describer comes back with: a reply whose \<open>response\<close>
  field is a text (empty when absent), an error of the HTTP client with its message,
  or any other thrown error.
\<close>

datatype reply =
  Response string
  | AxiosError string
  | OtherError string

text \<open>\<open>processImage\<close>: the description, or the message of the error it throws (\<open>Inl\<close>).\<close>

definition ImageProcessor_processImage :: "ImageProcessor \<Rightarrow> reply \<Rightarrow> string + string" where
  "ImageProcessor_processImage ip r =
     (case r of
        Response t \<Rightarrow> Inr (if t \<noteq> [] then t else ''No description available'')
      | AxiosError m \<Rightarrow>
          Inl (''Ollama API error: '' @ m @ ''. Check that Ollama is running at '' @ ollamaUrl ip)
      | OtherError m \<Rightarrow> Inl m)"

section \<open>The worker pool (lib/worker-pool.ts)\<close>

record Worker =
  id_w :: nat
  busy :: bool
  processed :: nat

text \<open>
  A promise is pending, fulfilled with a value or rejected with an error message.
  The pool keeps the promises that \<open>processImage\<close> created in a table; a queued task
  holds the index of its promise where the source holds the promise's \<open>resolve\<close> and
  \<open>reject\<close> functions.
\<close>

datatype 'a promise = Pending | Fulfilled 'a | Rejected string

record QueuedTask =
  base64Image :: string
  imageId :: "jsstring option"
  promiseOf :: nat

text \<open>
  The coordinator is a coroutine; between two runs it is either not running or
  suspended in one of its three sleeps: the 100 ms poll for late arrivals, the 50 ms
  wait while tasks are active and the queue is empty, and the 50 ms wait for a free
  slot.
\<close>

datatype coordinator = NotRunning | AwaitLateArrivals | AwaitActive | AwaitSlot

text \<open>
  The pool's fields, then the state of its suspended coroutines: where the
  coordinator sleeps, the calls of \<open>executeTask\<close> that await the describer (each
  with the index of the worker it holds), and the promise table.  The assignment
  callback acts on a state \<open>'c\<close> of the client that registered it.  The unused field
  \<open>currentWorkerIndex\<close> is left out.
\<close>

record 'c WorkerPool =
  workers :: "Worker list"
  processor :: ImageProcessor
  concurrentLimit :: nat
  activeProcessing :: int
  taskQueue :: "QueuedTask list"
  isProcessingQueue :: bool
  onAssignCallback :: "(nat \<Rightarrow> nat \<Rightarrow> jsstring option \<Rightarrow> 'c \<Rightarrow> 'c) option"
  coordinator :: coordinator
  executing :: "(QueuedTask \<times> nat) list"
  promises :: "(string \<times> nat) promise list"

definition WorkerPool_new :: "string option \<Rightarrow> nat \<Rightarrow> 'c WorkerPool" where
  "WorkerPool_new env_url workerCount =
     \<lparr> workers = map (\<lambda>i. \<lparr> id_w = i, busy = False, processed = 0 \<rparr>) [0..<workerCount],
       processor = ImageProcessor_new None env_url,
       concurrentLimit = workerCount,
       activeProcessing = 0,
       taskQueue = [],
       isProcessingQueue = False,
       onAssignCallback = None,
       coordinator = NotRunning,
       executing = [],
       promises = [] \<rparr>"

definition setOnAssignCallback ::
  "(nat \<Rightarrow> nat \<Rightarrow> jsstring option \<Rightarrow> 'c \<Rightarrow> 'c) \<Rightarrow> 'c WorkerPool \<Rightarrow> 'c WorkerPool" where
  "setOnAssignCallback callback p = p\<lparr> onAssignCallback := Some callback \<rparr>"

text \<open>\<open>Array.prototype.find\<close>, returning the position of the element found.\<close>

fun findIndex :: "('a \<Rightarrow> bool) \<Rightarrow> 'a list \<Rightarrow> nat option" where
  "findIndex P [] = None"
| "findIndex P (x # xs) = (if P x then Some 0 else map_option Suc (findIndex P xs))"

text \<open>
  \<open>workers.reduce((min, worker) => worker.processed < min.processed ? worker : min)\<close>
  on a non-empty array: it starts from element 0 and visits the others in order.
\<close>

definition leastBusy :: "Worker list \<Rightarrow> nat" where
  "leastBusy ws =
     foldl (\<lambda>m j. if processed (ws ! j) < processed (ws ! m) then j else m) 0 [1..<length ws]"

text \<open>
  \<open>getNextWorker\<close> returns a reference to a worker, here its position in the table,
  and has incremented that worker's \<open>processed\<close>.  \<open>None\<close> is the \<open>TypeError\<close> of
  \<open>reduce\<close> on an empty array.
\<close>

definition getNextWorker :: "Worker list \<Rightarrow> (nat \<times> Worker list) option" where
  "getNextWorker ws =
     (case findIndex (\<lambda>w. \<not> busy w) ws of
        Some i \<Rightarrow> Some (i, ws[i := (ws ! i)\<lparr> processed := processed (ws ! i) + 1 \<rparr>])
      | None \<Rightarrow>
          if ws = [] then None
          else (let i = leastBusy ws
                in Some (i, ws[i := (ws ! i)\<lparr> processed := processed (ws ! i) + 1 \<rparr>])))"

text \<open>Settling a promise; a promise that is no longer pending ignores it.\<close>

definition settle :: "nat \<Rightarrow> (string \<times> nat) promise \<Rightarrow> 'c WorkerPool \<Rightarrow> 'c WorkerPool" where
  "settle n v p =
     (if n < length (promises p) \<and> promises p ! n = Pending
      then p\<lparr> promises := (promises p)[n := v] \<rparr> else p)"

text \<open>
  \<open>executeTask\<close> up to its \<open>await\<close> of the describer: it counts the task as
  active, picks the worker, marks it busy and calls the assignment callback.  When
  \<open>getNextWorker\<close> throws, the call's promise rejects and the coordinator's
  \<open>catch\<close> rejects the task; the counter stays incremented.
\<close>

definition executeTask_begin ::
  "QueuedTask \<Rightarrow> nat \<Rightarrow> 'c WorkerPool \<times> 'c \<Rightarrow> 'c WorkerPool \<times> 'c" where
  "executeTask_begin task initialQueueSize = (\<lambda>(p, c).
     let p1 = p\<lparr> activeProcessing := activeProcessing p + 1 \<rparr> in
     case getNextWorker (workers p1) of
       None \<Rightarrow>
         (settle (promiseOf task) (Rejected ''Reduce of empty array with no initial value'') p1, c)
     | Some (i, ws) \<Rightarrow>
         (let ws' = ws[i := (ws ! i)\<lparr> busy := True \<rparr>];
              c' = (case onAssignCallback p1 of
                      None \<Rightarrow> c
                    | Some callback \<Rightarrow> callback (id_w (ws' ! i)) initialQueueSize (imageId task) c)
          in (p1\<lparr> workers := ws', executing := executing p1 @ [(task, i)] \<rparr>, c')))"

text \<open>
  The rest of \<open>executeTask\<close> for the \<open>n\<close>-th awaiting call, once the describer has
  answered: resolve or reject the task, then the \<open>finally\<close> block.
\<close>

definition executeTask_end :: "nat \<Rightarrow> reply \<Rightarrow> 'c WorkerPool \<Rightarrow> 'c WorkerPool" where
  "executeTask_end n r p =
     (let (task, i) = executing p ! n;
          p1 = (case ImageProcessor_processImage (processor p) r of
                  Inr result \<Rightarrow> settle (promiseOf task) (Fulfilled (result, id_w (workers p ! i))) p
                | Inl err \<Rightarrow> settle (promiseOf task) (Rejected err) p)
      in p1\<lparr> workers := (workers p1)[i := (workers p1 ! i)\<lparr> busy := False \<rparr>],
              activeProcessing := activeProcessing p1 - 1,
              executing := take n (executing p1) @ drop (Suc n) (executing p1) \<rparr>)"

text \<open>
  One run of the coordinator, from the head of its \<open>while (true)\<close> loop or from the
  inner \<open>while\<close> that waits for a slot, up to its next sleep.  Nothing else runs in
  between: the loop has no \<open>await\<close> outside the sleeps.
\<close>

datatype entry = LoopHead | WaitSlot

function coordinator_run :: "entry \<Rightarrow> 'c WorkerPool \<times> 'c \<Rightarrow> 'c WorkerPool \<times> 'c" where
  "coordinator_run LoopHead (p, c) =
     (if taskQueue p = [] then
        (if activeProcessing p = 0 then (p\<lparr> coordinator := AwaitLateArrivals \<rparr>, c)
         else (p\<lparr> coordinator := AwaitActive \<rparr>, c))
      else coordinator_run WaitSlot (p, c))"
| "coordinator_run WaitSlot (p, c) =
     (if int (concurrentLimit p) \<le> activeProcessing p then (p\<lparr> coordinator := AwaitSlot \<rparr>, c)
      else (case taskQueue p of
              [] \<Rightarrow> coordinator_run LoopHead (p, c)
            | task # rest \<Rightarrow>
                coordinator_run LoopHead
                  (executeTask_begin task (length (task # rest) - 1) (p\<lparr> taskQueue := rest \<rparr>, c))))"
  by pat_completeness auto
termination
proof (relation "measure (\<lambda>(e, s).
          case e of
            LoopHead \<Rightarrow> (if taskQueue (fst s) = [] then 0 else 2 * length (taskQueue (fst s)) + 1)
          | WaitSlot \<Rightarrow> (if taskQueue (fst s) = [] then 1 else 2 * length (taskQueue (fst s))))",
       goal_cases)
  case 1
  show ?case by simp
next
  case (2 p c)
  then show ?case by simp
next
  case (3 p c)
  then show ?case by simp
next
  case (4 p c task rest)
  have "taskQueue (fst (executeTask_begin task (length (task # rest) - 1) (p\<lparr> taskQueue := rest \<rparr>, c))) = rest"
    by (simp add: executeTask_begin_def settle_def Let_def split: option.split prod.split)
  with 4 show ?case by simp
qed

text \<open>The timer of the coordinator's current sleep fires.\<close>

definition coordinator_wake :: "'c WorkerPool \<times> 'c \<Rightarrow> 'c WorkerPool \<times> 'c" where
  "coordinator_wake = (\<lambda>(p, c).
     case coordinator p of
       NotRunning \<Rightarrow> (p, c)
     | AwaitLateArrivals \<Rightarrow>
         if taskQueue p = [] \<and> activeProcessing p = 0
         then (p\<lparr> isProcessingQueue := False, coordinator := NotRunning \<rparr>, c)
         else coordinator_run WaitSlot (p, c)
     | AwaitActive \<Rightarrow> coordinator_run LoopHead (p, c)
     | AwaitSlot \<Rightarrow> coordinator_run WaitSlot (p, c))"

definition processQueueCoordinator :: "'c WorkerPool \<times> 'c \<Rightarrow> 'c WorkerPool \<times> 'c" where
  "processQueueCoordinator = (\<lambda>(p, c).
     if isProcessingQueue p then (p, c)
     else coordinator_run LoopHead (p\<lparr> isProcessingQueue := True \<rparr>, c))"

text \<open>
  \<open>processImage(base64Image, imageId)\<close> of the pool: a new promise, the task pushed
  on the queue, the coordinator started when it is not running.  The result is the
  promise.
\<close>

definition processImage ::
  "string \<Rightarrow> jsstring option \<Rightarrow> 'c WorkerPool \<times> 'c \<Rightarrow> nat \<times> 'c WorkerPool \<times> 'c" where
  "processImage img iid = (\<lambda>(p, c).
     let n = length (promises p);
         p1 = p\<lparr> promises := promises p @ [Pending],
                 taskQueue := taskQueue p @ [\<lparr> base64Image = img, imageId = iid, promiseOf = n \<rparr>] \<rparr>
     in (n, if \<not> isProcessingQueue p1 then processQueueCoordinator (p1, c) else (p1, c)))"

record PoolStats =
  workers_ps :: "Worker list"
  activeProcessing_ps :: int
  queueSize_ps :: nat
  coordinatorActive :: bool

definition getStats_pool :: "'c WorkerPool \<Rightarrow> PoolStats" where
  "getStats_pool p =
     \<lparr> workers_ps = map (\<lambda>w. \<lparr> id_w = id_w w, busy = busy w, processed = processed w \<rparr>) (workers p),
       activeProcessing_ps = activeProcessing p,
       queueSize_ps = length (taskQueue p),
       coordinatorActive = isProcessingQueue p \<rparr>"

text \<open>
  The pool as a transition system.  Each action is one uninterrupted run of
  JavaScript: a caller's \<open>processImage\<close> or \<open>setOnAssignCallback\<close>, the
  coordinator's timer firing, or the describer answering the \<open>n\<close>-th awaiting call.
  An action that is not enabled gives \<open>None\<close>.
\<close>

datatype 'c pool_action =
  Submit string "jsstring option"
  | SetCallback "nat \<Rightarrow> nat \<Rightarrow> jsstring option \<Rightarrow> 'c \<Rightarrow> 'c"
  | Wake
  | Answer nat reply

fun pool_fire :: "'c pool_action \<Rightarrow> 'c WorkerPool \<times> 'c \<Rightarrow> ('c WorkerPool \<times> 'c) option" where
  "pool_fire (Submit img iid) s = Some (snd (processImage img iid s))"
| "pool_fire (SetCallback callback) s = Some (setOnAssignCallback callback (fst s), snd s)"
| "pool_fire Wake s = (if coordinator (fst s) = NotRunning then None else Some (coordinator_wake s))"
| "pool_fire (Answer n r) s =
     (if n < length (executing (fst s)) then Some (executeTask_end n r (fst s), snd s) else None)"

fun pool_run :: "'c pool_action list \<Rightarrow> 'c WorkerPool \<times> 'c \<Rightarrow> ('c WorkerPool \<times> 'c) option" where
  "pool_run [] s = Some s"
| "pool_run (a # as) s = (case pool_fire a s of None \<Rightarrow> None | Some s' \<Rightarrow> pool_run as s')"

text \<open>
  What the constructor establishes and every action keeps: the limit is the size of
  the worker table, worker \<open>i\<close> has id \<open>i\<close>, and the counter of active tasks is the
  number of \<open>executeTask\<close> calls that await the describer.
\<close>

definition pool_inv :: "'c WorkerPool \<Rightarrow> bool" where
  "pool_inv p =
     (concurrentLimit p = length (workers p)
      \<and> map id_w (workers p) = [0..<length (workers p)]
      \<and> activeProcessing p = int (length (executing p))
      \<and> activeProcessing p \<le> int (concurrentLimit p))"

section \<open>The streaming dispatcher (app/api/process/route.ts)\<close>

subsection \<open>Events on the stream\<close>

record Stats =
  total :: int
  completed :: int
  pending :: int
  processing :: int
  errors :: int

datatype result_status = StatusProcessing | StatusCompleted | StatusError

text \<open>
  A \<open>result\<close> event, with the fields the handler does not set as \<open>None\<close>
  (\<open>JSON.stringify\<close> leaves them out).
\<close>

record Result =
  id_r :: jsstring
  status :: result_status
  description :: "string option"
  partition_r :: "nat option"
  workerThread :: "nat option"
  processingTime :: "int option"
  error_r :: "string option"

datatype logType = Info | Success | ErrorLog | WorkerLog | PartitionLog

text \<open>
  The events; the message text of a \<open>log\<close> event is not modelled.
\<close>

datatype event =
  StatsEvent Stats
  | LogEvent logType
  | WorkersEvent "Worker list"
  | PartitionsEvent "PartitionStat list"
  | ResultEvent Result
  | ErrorEvent string

subsection \<open>The request and the handler's variables\<close>

text \<open>An uploaded file: its name, its size and the base64 text of its bytes.\<close>

record File =
  name_f :: string
  size_f :: nat
  base64_f :: string

text \<open>The value \<open>store\<close> receives for an image: file name, size, first 100 characters.\<close>

record Snippet =
  filename :: string
  size_s :: nat
  data_s :: string

record TaskData =
  imageId_t :: jsstring
  partition_t :: nat
  base64Image_t :: string
  startTime :: int

text \<open>
  An invocation of the assignment callback is a coroutine of its own: after its
  first write (the \<open>worker\<close> log) it awaits, then decides whether the image is one of
  this request's, writes the \<open>processing\<close> result, the \<open>stats\<close> and the
  \<open>workers\<close> event, awaiting each write.
\<close>

datatype callback_pc = CbLog | CbResult | CbStats | CbWorkers | CbDone

record Callback =
  cb_pc :: callback_pc
  cb_workerId :: nat
  cb_imageId :: "jsstring option"

text \<open>
  The chain \<open>processImage(...).then(...).catch(...)\<close> of one task: it waits for the
  pool's promise, then runs the \<open>then\<close> handler or the \<open>catch\<close> handler, each a
  sequence of awaited writes.
\<close>

datatype chain_pc =
  AwaitPool | ThenStats | ThenWorkers | ThenLog | CatchStats | CatchLog | CatchEnd | ChainDone

record Chain =
  chain_pc :: chain_pc
  chain_promise :: nat

text \<open>
  Where \<open>processRequest\<close> itself is suspended.  The preparation loop carries its
  index, the iteration's \<open>startTime\<close> and, once \<open>store\<close> has returned, the
  partition.
\<close>

datatype main_pc =
  Start
  | AfterInitStats
  | AfterInitLog
  | AfterInitWorkers
  | AfterInitPartitions
  | PrepLogged nat int
  | PrepRead nat int
  | PrepStored nat int nat
  | PrepSent nat int nat
  | PrepNoted nat int nat
  | AwaitAll
  | FinalWorkers
  | FinalPartitions
  | Finishing
  | Thrown string
  | Closed

text \<open>
  The variables of one call of \<open>processRequest\<close>, the stream written so far
  (\<open>out\<close>) and the state of the coroutines the call has started.  \<open>streamClosed\<close>
  stands for the stream not taking writes any more: the source sets its flag when
  a write fails, and the writes between the client's disconnect and that moment
  fail as well, so no write adds a chunk from the disconnect on.
\<close>

record Dispatcher =
  images :: "File list"
  imageIds :: "jsstring list"
  stats :: Stats
  streamClosed :: bool
  imageMetadata :: "jsstring \<rightharpoonup> nat"
  imageTaskData :: "TaskData list"
  out :: "event list"
  main :: main_pc
  callbacks :: "Callback list"
  chains :: "Chain list"

text \<open>
  The whole system: the module's pool and store, the request's handler, and the
  clock that \<open>Date.now()\<close> reads.
\<close>

record System =
  pool :: "Dispatcher WorkerPool"
  disp :: Dispatcher
  storage :: "Snippet DistributedStorage"
  clock :: int

definition safeWrite :: "event \<Rightarrow> Dispatcher \<Rightarrow> Dispatcher" where
  "safeWrite ev d = (if streamClosed d then d else d\<lparr> out := out d @ [ev] \<rparr>)"

definition sendWorkerStats :: "'c WorkerPool \<Rightarrow> Dispatcher \<Rightarrow> Dispatcher" where
  "sendWorkerStats p d = safeWrite (WorkersEvent (workers_ps (getStats_pool p))) d"

definition sendPartitionStats :: "'v DistributedStorage \<Rightarrow> Dispatcher \<Rightarrow> Dispatcher" where
  "sendPartitionStats st d = safeWrite (PartitionsEvent (partitions_st (getStats st))) d"

text \<open>Decimal digits of a number, as in a template string.\<close>

fun digits :: "nat \<Rightarrow> jsstring" where
  "digits n = (if n < 10 then [of_nat (48 + n)] else digits (n div 10) @ [of_nat (48 + n mod 10)])"

text \<open>\<open>imageIds[idx] || `img-${idx}`\<close>.\<close>

definition imageId_of :: "jsstring list \<Rightarrow> nat \<Rightarrow> jsstring" where
  "imageId_of ids idx =
     (if idx < length ids \<and> ids ! idx \<noteq> [] then ids ! idx else js ''img-'' @ digits idx)"

subsection \<open>The assignment callback\<close>

text \<open>
  The part of the callback that runs inside \<open>executeTask\<close>: the call of
  \<open>safeWrite\<close> for the \<open>worker\<close> log; the rest is a new coroutine.
\<close>

definition onAssign :: "nat \<Rightarrow> nat \<Rightarrow> jsstring option \<Rightarrow> Dispatcher \<Rightarrow> Dispatcher" where
  "onAssign workerId queueSize iid d =
     (safeWrite (LogEvent WorkerLog) d)
       \<lparr> callbacks := callbacks d @ [\<lparr> cb_pc = CbLog, cb_workerId = workerId, cb_imageId = iid \<rparr>] \<rparr>"

definition set_cb :: "nat \<Rightarrow> callback_pc \<Rightarrow> Dispatcher \<Rightarrow> Dispatcher" where
  "set_cb j pc d = d\<lparr> callbacks := (callbacks d)[j := (callbacks d ! j)\<lparr> cb_pc := pc \<rparr>] \<rparr>"

text \<open>\<open>imageId && imageMetadata.has(imageId)\<close>, with the partition found.\<close>

definition known_image :: "Dispatcher \<Rightarrow> jsstring option \<Rightarrow> (jsstring \<times> nat) option" where
  "known_image d iid =
     (case iid of
        None \<Rightarrow> None
      | Some i \<Rightarrow> if i = [] then None else map_option (\<lambda>part. (i, part)) (imageMetadata d i))"

definition callback_step :: "nat \<Rightarrow> System \<Rightarrow> System option" where
  "callback_step j s =
     (let d = disp s in
      if j < length (callbacks d) then
        (let cb = callbacks d ! j in
         case cb_pc cb of
           CbLog \<Rightarrow>
             (case known_image d (cb_imageId cb) of
                Some (i, part) \<Rightarrow>
                  Some (s\<lparr> disp := set_cb j CbResult
                    (safeWrite (ResultEvent
                        \<lparr> id_r = i, status = StatusProcessing, description = None,
                          partition_r = Some part, workerThread = Some (cb_workerId cb),
                          processingTime = None, error_r = None \<rparr>)
                      (d\<lparr> stats := (stats d)\<lparr> pending := pending (stats d) - 1,
                                              processing := processing (stats d) + 1 \<rparr> \<rparr>)) \<rparr>)
              | None \<Rightarrow> Some (s\<lparr> disp := set_cb j CbWorkers (sendWorkerStats (pool s) d) \<rparr>))
         | CbResult \<Rightarrow> Some (s\<lparr> disp := set_cb j CbStats (safeWrite (StatsEvent (stats d)) d) \<rparr>)
         | CbStats \<Rightarrow> Some (s\<lparr> disp := set_cb j CbWorkers (sendWorkerStats (pool s) d) \<rparr>)
         | CbWorkers \<Rightarrow> Some (s\<lparr> disp := set_cb j CbDone d \<rparr>)
         | CbDone \<Rightarrow> None)
      else None)"

subsection \<open>The promise chain of a task\<close>

definition set_chain :: "nat \<Rightarrow> chain_pc \<Rightarrow> Dispatcher \<Rightarrow> Dispatcher" where
  "set_chain i pc d = d\<lparr> chains := (chains d)[i := (chains d ! i)\<lparr> chain_pc := pc \<rparr>] \<rparr>"

text \<open>The \<open>then\<close> handler up to its first write.\<close>

definition then_handler :: "int \<Rightarrow> TaskData \<Rightarrow> string \<Rightarrow> nat \<Rightarrow> Dispatcher \<Rightarrow> Dispatcher" where
  "then_handler now t descr worker d =
     safeWrite (ResultEvent
        \<lparr> id_r = imageId_t t, status = StatusCompleted, description = Some descr,
          partition_r = Some (partition_t t), workerThread = Some worker,
          processingTime = Some (now - startTime t), error_r = None \<rparr>)
       (d\<lparr> stats := (stats d)\<lparr> processing := processing (stats d) - 1,
                               completed := completed (stats d) + 1 \<rparr> \<rparr>)"

text \<open>The \<open>catch\<close> handler up to its first write.\<close>

definition catch_handler :: "int \<Rightarrow> TaskData \<Rightarrow> string \<Rightarrow> Dispatcher \<Rightarrow> Dispatcher" where
  "catch_handler now t msg d =
     safeWrite (ResultEvent
        \<lparr> id_r = imageId_t t, status = StatusError, description = None,
          partition_r = None, workerThread = None,
          processingTime = Some (now - startTime t), error_r = Some msg \<rparr>)
       (d\<lparr> stats :=
            (if processing (stats d) > 0
             then (stats d)\<lparr> processing := processing (stats d) - 1 \<rparr>
             else (stats d)\<lparr> pending := pending (stats d) - 1 \<rparr>)
              \<lparr> errors := errors (stats d) + 1 \<rparr> \<rparr>)"

definition chain_step :: "nat \<Rightarrow> System \<Rightarrow> System option" where
  "chain_step i s =
     (let d = disp s in
      if i < length (chains d) \<and> i < length (imageTaskData d) then
        (case chain_pc (chains d ! i) of
           AwaitPool \<Rightarrow>
             (if chain_promise (chains d ! i) < length (promises (pool s)) then
                (case promises (pool s) ! chain_promise (chains d ! i) of
                   Pending \<Rightarrow> None
                 | Fulfilled (descr, worker) \<Rightarrow>
                     Some (s\<lparr> disp := set_chain i ThenStats
                              (then_handler (clock s) (imageTaskData d ! i) descr worker d) \<rparr>)
                 | Rejected msg \<Rightarrow>
                     Some (s\<lparr> disp := set_chain i CatchStats
                              (catch_handler (clock s) (imageTaskData d ! i) msg d) \<rparr>))
              else None)
         | ThenStats \<Rightarrow> Some (s\<lparr> disp := set_chain i ThenWorkers (safeWrite (StatsEvent (stats d)) d) \<rparr>)
         | ThenWorkers \<Rightarrow> Some (s\<lparr> disp := set_chain i ThenLog (sendWorkerStats (pool s) d) \<rparr>)
         | ThenLog \<Rightarrow> Some (s\<lparr> disp := set_chain i ChainDone d \<rparr>)
         | CatchStats \<Rightarrow> Some (s\<lparr> disp := set_chain i CatchLog (safeWrite (StatsEvent (stats d)) d) \<rparr>)
         | CatchLog \<Rightarrow> Some (s\<lparr> disp := set_chain i CatchEnd (safeWrite (LogEvent ErrorLog) d) \<rparr>)
         | CatchEnd \<Rightarrow> Some (s\<lparr> disp := set_chain i ChainDone d \<rparr>)
         | ChainDone \<Rightarrow> None)
      else None)"

subsection \<open>The handler itself\<close>

text \<open>
  The submission phase: every task goes to the pool in one run, and its promise
  gets its chain.  The first call may start the coordinator, which then runs inside
  that call up to its first sleep.
\<close>

fun submit_all :: "TaskData list \<Rightarrow> Dispatcher WorkerPool \<times> Dispatcher \<Rightarrow> Dispatcher WorkerPool \<times> Dispatcher" where
  "submit_all [] s = s"
| "submit_all (t # ts) s =
     (case processImage (base64Image_t t) (Some (imageId_t t)) s of
        (n, p', d') \<Rightarrow>
          submit_all ts (p', d'\<lparr> chains := chains d' @ [\<lparr> chain_pc = AwaitPool, chain_promise = n \<rparr>] \<rparr>))"

text \<open>
  The head of the preparation loop for index \<open>idx\<close>: either the next image's
  partition log, or, past the last image, the submission phase and the wait for
  all chains.
\<close>

definition next_iteration :: "nat \<Rightarrow> System \<Rightarrow> System" where
  "next_iteration idx s =
     (let d = disp s in
      if idx < length (images d)
      then s\<lparr> disp := (safeWrite (LogEvent PartitionLog) d)\<lparr> main := PrepLogged idx (clock s) \<rparr> \<rparr>
      else (case submit_all (imageTaskData d) (pool s, d) of
              (p', d') \<Rightarrow> s\<lparr> pool := p', disp := d'\<lparr> main := AwaitAll \<rparr> \<rparr>))"

text \<open>
  One run of \<open>processRequest\<close> from where it is suspended to its next \<open>await\<close>.
  \<open>len\<close> stands for \<open>JSON.stringify(data).length\<close>.  A throw of \<open>store\<close>
  takes the handler to its \<open>catch\<close> block.
\<close>

definition main_step :: "(Snippet \<Rightarrow> nat) \<Rightarrow> System \<Rightarrow> System option" where
  "main_step len s =
     (let d = disp s in
      case main d of
        Start \<Rightarrow>
          (let d1 = d\<lparr> stats := \<lparr> total = int (length (images d)), completed = 0,
                                  pending = int (length (images d)), processing = 0, errors = 0 \<rparr> \<rparr>
           in Some (s\<lparr> disp := (safeWrite (StatsEvent (stats d1)) d1)\<lparr> main := AfterInitStats \<rparr> \<rparr>))
      | AfterInitStats \<Rightarrow> Some (s\<lparr> disp := (safeWrite (LogEvent Info) d)\<lparr> main := AfterInitLog \<rparr> \<rparr>)
      | AfterInitLog \<Rightarrow> Some (s\<lparr> disp := (sendWorkerStats (pool s) d)\<lparr> main := AfterInitWorkers \<rparr> \<rparr>)
      | AfterInitWorkers \<Rightarrow>
          Some (s\<lparr> disp := (sendPartitionStats (storage s) d)\<lparr> main := AfterInitPartitions \<rparr> \<rparr>)
      | AfterInitPartitions \<Rightarrow>
          Some (next_iteration 0
                  (s\<lparr> pool := setOnAssignCallback onAssign (pool s),
                       disp := d\<lparr> imageMetadata := Map.empty, imageTaskData := [] \<rparr> \<rparr>))
      | PrepLogged idx st \<Rightarrow> Some (s\<lparr> disp := d\<lparr> main := PrepRead idx st \<rparr> \<rparr>)
      | PrepRead idx st \<Rightarrow>
          (case getPartition (storage s) (imageId_of (imageIds d) idx) of
             None \<Rightarrow>
               Some (s\<lparr> disp := d\<lparr> main := Thrown ''Cannot read properties of undefined'' \<rparr> \<rparr>)
           | Some part \<Rightarrow>
               (case store (\<lambda>i. nat (clock s)) len (storage s) (imageId_of (imageIds d) idx)
                       \<lparr> filename = name_f (images d ! idx), size_s = size_f (images d ! idx),
                         data_s = take 100 (base64_f (images d ! idx)) \<rparr> of
                  Inl e \<Rightarrow>
                    Some (s\<lparr> disp := d\<lparr> main := Thrown ''Cannot read properties of undefined'' \<rparr> \<rparr>)
                | Inr st' \<Rightarrow>
                    Some (s\<lparr> storage := st', disp := d\<lparr> main := PrepStored idx st part \<rparr> \<rparr>)))
      | PrepStored idx st part \<Rightarrow>
          Some (s\<lparr> disp := (sendPartitionStats (storage s) d)\<lparr> main := PrepSent idx st part \<rparr> \<rparr>)
      | PrepSent idx st part \<Rightarrow>
          Some (s\<lparr> disp := (safeWrite (LogEvent Info) d)\<lparr> main := PrepNoted idx st part \<rparr> \<rparr>)
      | PrepNoted idx st part \<Rightarrow>
          Some (next_iteration (idx + 1)
                  (s\<lparr> disp := d\<lparr> imageMetadata := (imageMetadata d)(imageId_of (imageIds d) idx \<mapsto> part),
                                  imageTaskData := imageTaskData d @
                                    [\<lparr> imageId_t = imageId_of (imageIds d) idx, partition_t = part,
                                       base64Image_t = base64_f (images d ! idx), startTime = st \<rparr>] \<rparr> \<rparr>))
      | AwaitAll \<Rightarrow>
          (if list_all (\<lambda>c. chain_pc c = ChainDone) (chains d)
           then Some (s\<lparr> disp := (sendWorkerStats (pool s) d)\<lparr> main := FinalWorkers \<rparr> \<rparr>)
           else None)
      | FinalWorkers \<Rightarrow>
          Some (s\<lparr> disp := (sendPartitionStats (storage s) d)\<lparr> main := FinalPartitions \<rparr> \<rparr>)
      | FinalPartitions \<Rightarrow> Some (s\<lparr> disp := (safeWrite (LogEvent Success) d)\<lparr> main := Finishing \<rparr> \<rparr>)
      | Thrown msg \<Rightarrow> Some (s\<lparr> disp := (safeWrite (ErrorEvent msg) d)\<lparr> main := Finishing \<rparr> \<rparr>)
      | Finishing \<Rightarrow> Some (s\<lparr> disp := d\<lparr> streamClosed := True, main := Closed \<rparr> \<rparr>)
      | Closed \<Rightarrow> None)"

subsection \<open>The system's actions\<close>

text \<open>
  Each action is one uninterrupted run of JavaScript, or a move of the environment:
  the handler resumes (\<open>Resume\<close>; at \<open>Start\<close> this is \<open>formData()\<close> resolving,
  and \<open>ParseFail\<close> is its rejection), a callback invocation or a promise chain
  resumes, the coordinator's timer fires, the describer answers, the client goes
  away, time passes.
\<close>

datatype action =
  Resume
  | ParseFail string
  | ResumeCallback nat
  | ResumeChain nat
  | Timer
  | Describer nat reply
  | Disconnect
  | Tick nat

definition lift_pool :: "(Dispatcher WorkerPool \<times> Dispatcher) option \<Rightarrow> System \<Rightarrow> System option" where
  "lift_pool r s = (case r of None \<Rightarrow> None | Some (p', d') \<Rightarrow> Some (s\<lparr> pool := p', disp := d' \<rparr>))"

fun fire :: "(Snippet \<Rightarrow> nat) \<Rightarrow> action \<Rightarrow> System \<Rightarrow> System option" where
  "fire len Resume s = main_step len s"
| "fire len (ParseFail msg) s =
     (if main (disp s) = Start then Some (s\<lparr> disp := (disp s)\<lparr> main := Thrown msg \<rparr> \<rparr>) else None)"
| "fire len (ResumeCallback j) s = callback_step j s"
| "fire len (ResumeChain i) s = chain_step i s"
| "fire len Timer s = lift_pool (pool_fire Wake (pool s, disp s)) s"
| "fire len (Describer n r) s = lift_pool (pool_fire (Answer n r) (pool s, disp s)) s"
| "fire len Disconnect s = Some (s\<lparr> disp := (disp s)\<lparr> streamClosed := True \<rparr> \<rparr>)"
| "fire len (Tick n) s = Some (s\<lparr> clock := clock s + int n \<rparr>)"

fun run :: "(Snippet \<Rightarrow> nat) \<Rightarrow> action list \<Rightarrow> System \<Rightarrow> System option" where
  "run len [] s = Some s"
| "run len (a # as) s = (case fire len a s of None \<Rightarrow> None | Some s' \<Rightarrow> run len as s')"

text \<open>
  A request arriving at the module: the pool \<open>p0\<close> and the store \<open>st0\<close> as they
  are, the handler at its start with the parsed form data.
\<close>

definition initial ::
  "Dispatcher WorkerPool \<Rightarrow> Snippet DistributedStorage \<Rightarrow> int \<Rightarrow> File list \<Rightarrow> jsstring list \<Rightarrow> System" where
  "initial p0 st0 t0 imgs ids =
     \<lparr> pool = p0,
       disp = \<lparr> images = imgs, imageIds = ids,
                stats = \<lparr> total = 0, completed = 0, pending = 0, processing = 0, errors = 0 \<rparr>,
                streamClosed = False, imageMetadata = Map.empty, imageTaskData = [],
                out = [], main = Start, callbacks = [], chains = [] \<rparr>,
       storage = st0,
       clock = t0 \<rparr>"

text \<open>The module as loaded: a pool of 4 workers and the default store.\<close>

definition fresh :: "string option \<Rightarrow> int \<Rightarrow> File list \<Rightarrow> jsstring list \<Rightarrow> System" where
  "fresh env_url t0 imgs ids = initial (WorkerPool_new env_url 4) (DistributedStorage_new 8 2) t0 imgs ids"

text \<open>What a stream shows.\<close>

definition stats_events :: "event list \<Rightarrow> Stats list" where
  "stats_events evs = concat (map (\<lambda>e. case e of StatsEvent st \<Rightarrow> [st] | _ \<Rightarrow> []) evs)"

definition results :: "event list \<Rightarrow> Result list" where
  "results evs = concat (map (\<lambda>e. case e of ResultEvent r \<Rightarrow> [r] | _ \<Rightarrow> []) evs)"

definition results_of :: "jsstring \<Rightarrow> event list \<Rightarrow> Result list" where
  "results_of i evs = filter (\<lambda>r. id_r r = i) (results evs)"

definition terminal :: "Result \<Rightarrow> bool" where
  "terminal r = (status r = StatusCompleted \<or> status r = StatusError)"

definition balanced :: "Stats \<Rightarrow> bool" where
  "balanced st = (pending st + processing st + completed st + errors st = total st)"

subsection \<open>Invariants of the handler\<close>

text \<open>
  A \<open>stats\<close> event is good for a batch of \<open>n\<close> images when its counters add up to
  its total and the total is \<open>n\<close>.
\<close>

definition ev_ok :: "int \<Rightarrow> event \<Rightarrow> bool" where
  "ev_ok n e = (case e of StatsEvent st \<Rightarrow> balanced st \<and> total st = n | _ \<Rightarrow> True)"

text \<open>
  Once the handler has initialised its \<open>stats\<close> object, that object is balanced
  with total \<open>n\<close>, and every event written is good.
\<close>

definition running :: "int \<Rightarrow> Dispatcher \<Rightarrow> bool" where
  "running n d =
     (int (length (images d)) = n
      \<and> list_all (ev_ok n) (out d)
      \<and> main d \<noteq> Start \<and> balanced (stats d) \<and> total (stats d) = n)"




section \<open>The \<open>result\<close> events of a batch\<close>

text \<open>The ids of the \<open>result\<close> events of a kind, in the order of the stream.\<close>

definition is_processing :: "Result \<Rightarrow> bool" where
  "is_processing r = (status r = StatusProcessing)"

definition result_ids :: "(Result \<Rightarrow> bool) \<Rightarrow> event list \<Rightarrow> jsstring list" where
  "result_ids P evs = map id_r (filter P (results evs))"

definition is_error :: "event \<Rightarrow> bool" where
  "is_error e = (case e of ErrorEvent m \<Rightarrow> True | _ \<Rightarrow> False)"

definition has_error :: "event list \<Rightarrow> bool" where
  "has_error evs = list_ex is_error evs"


text \<open>
  The ids of the tasks whose promise chain has run its \<open>then\<close> or its \<open>catch\<close>
  handler, given the tasks and their chains.
\<close>

definition settled :: "TaskData list \<Rightarrow> Chain list \<Rightarrow> jsstring list" where
  "settled ts cs = map (\<lambda>tc. imageId_t (fst tc)) (filter (\<lambda>tc. chain_pc (snd tc) \<noteq> AwaitPool) (zip ts cs))"

text \<open>
  The ids that invocations of the assignment callback have got past their first
  \<open>await\<close> with.
\<close>

definition assigned :: "Callback list \<Rightarrow> jsstring option list" where
  "assigned cbs = map cb_imageId (filter (\<lambda>cb. cb_pc cb \<noteq> CbLog) cbs)"

subsection \<open>Invariants of the handler's bookkeeping\<close>










text \<open>
  The ids the pool has been given and has not forgotten: those held by the
  invocations of the assignment callback, one for each task taken off the queue, and
  those of the tasks still queued.
\<close>

definition announced :: "Dispatcher WorkerPool \<Rightarrow> Dispatcher \<Rightarrow> jsstring option list" where
  "announced p d = map cb_imageId (callbacks d) @ map imageId (taskQueue p)"



text \<open>
  What a run of the pool or of the assignment callback leaves alone in the handler:
  all but the counters, the list of callback invocations and, on the stream, the
  events that are neither terminal results nor \<open>error\<close> events.
\<close>

definition same_request :: "Dispatcher \<Rightarrow> Dispatcher \<Rightarrow> bool" where
  "same_request d c =
     (images c = images d \<and> imageIds c = imageIds d \<and> main c = main d
      \<and> imageTaskData c = imageTaskData d \<and> imageMetadata c = imageMetadata d
      \<and> streamClosed c = streamClosed d \<and> chains c = chains d
      \<and> result_ids terminal (out c) = result_ids terminal (out d)
      \<and> has_error (out c) = has_error (out d))"

section \<open>Proof setup\<close>

text \<open>
  The recursive equations of the coordinator's run and of the decimal digits are unfolded
  on demand only.
\<close>

declare coordinator_run.simps [simp del]

declare digits.simps [simp del]

lemmas pool_eval =
  processImage_def processQueueCoordinator_def coordinator_wake_def coordinator_run.simps
  executeTask_begin_def executeTask_end_def getNextWorker_def leastBusy_def settle_def
  setOnAssignCallback_def WorkerPool_new_def ImageProcessor_new_def ImageProcessor_processImage_def
  getStats_pool_def Let_def upt_rec

lemmas store_eval =
  store_def store_replica_def partitions_get_def getPartition_def
  DistributedStorage_new_def getStats_def

lemmas hash_eval =
  js_def key_hash_def hash_step_def shl32_def and32_def ToInt32_def

lemmas disp_eval =
  fresh_def initial_def main_step_def next_iteration_def callback_step_def chain_step_def
  then_handler_def catch_handler_def set_cb_def set_chain_def known_image_def onAssign_def
  safeWrite_def sendWorkerStats_def sendPartitionStats_def lift_pool_def imageId_of_def

section \<open>The partitioner: the source's arithmetic is 32-bit arithmetic\<close>

lemma ToInt32_sint: "ToInt32 x = sint (word_of_int x :: 32 word)"
proof -
  define m where "m = x mod 4294967296"
  have m: "0 \<le> m" "m < 4294967296" by (simp_all add: m_def)
  have "(x + 2147483648) mod 4294967296 = (m + 2147483648) mod 4294967296"
    unfolding m_def by (rule mod_add_left_eq [symmetric])
  also have "\<dots> = (if 2147483648 \<le> m then m - 2147483648 else m + 2147483648)"
  proof (cases "2147483648 \<le> m")
    case True
    have "m + 2147483648 = m - 2147483648 + 4294967296" by arith
    then have "(m + 2147483648) mod 4294967296 = (m - 2147483648 + 4294967296) mod 4294967296" by (rule arg_cong)
    also have "\<dots> = (m - 2147483648) mod 4294967296" by (rule mod_add_self2)
    also have "\<dots> = m - 2147483648" using True m by (intro mod_pos_pos_trivial) simp_all
    finally show ?thesis using True by simp
  next
    case False
    then show ?thesis using m by (simp add: mod_pos_pos_trivial)
  qed
  finally have e: "(x + 2147483648) mod 4294967296 = (if 2147483648 \<le> m then m - 2147483648 else m + 2147483648)" .
  have "ToInt32 x = (if 2147483648 \<le> m then m - 4294967296 else m)"
    by (simp add: ToInt32_def Let_def m_def)
  moreover have "sint (word_of_int x :: 32 word) = (x + 2147483648) mod 4294967296 - 2147483648"
    by (simp add: int_word_sint)
  ultimately show ?thesis
    using e by simp
qed

lemma hash_step_sint:
  "hash_step (sint (w :: 32 word)) c = sint ((push_bit 5 w - w) + ucast c)"
proof -
  have a: "shl32 (sint w) 5 = sint (push_bit 5 w)"
    by (simp add: shl32_def ToInt32_sint push_bit_eq_mult)
  have "word_of_int (sint (push_bit 5 w) - sint w + uint c) = (push_bit 5 w - w) + (ucast c :: 32 word)"
    by simp
  then show ?thesis
    by (simp add: hash_step_def Let_def and32_def a ToInt32_sint)
qed

lemma foldl_hash_step:
  "foldl hash_step (sint (w :: 32 word)) k = sint (foldl (\<lambda>h c. (push_bit 5 h - h) + ucast c) w k)"
  by (induction k arbitrary: w) (simp_all add: hash_step_sint)

lemma key_hash_spec: "key_hash k = sint (spec_hash k)"
  using foldl_hash_step [of 0 k] by (simp add: key_hash_def spec_hash_def)

lemma getPartition_spec:
  "0 < partitionCount s \<Longrightarrow> getPartition s k = Some (spec_partition (partitionCount s) k)"
  by (simp add: getPartition_def spec_partition_def key_hash_spec nat_mod_distrib)

lemma getPartition_range:
  "getPartition s k = Some p \<Longrightarrow> p < partitionCount s"
  by (auto simp: getPartition_def nat_less_iff split: if_splits)


section \<open>The shard store: what one call of \<open>store\<close> changes\<close>

lemma wf_storage_new: "wf_storage (DistributedStorage_new P R)"
  by (simp add: wf_storage_def DistributedStorage_new_def)

lemma store_replica_frame:
  assumes "store_replica now k d p i s = Inr s'"
  shows "length (partitions s') = length (partitions s)"
    and "partitionCount s' = partitionCount s"
    and "replicationFactor s' = replicationFactor s"
    and "j < length (partitions s) \<Longrightarrow> itemCount (partitions s' ! j) = itemCount (partitions s ! j)"
    and "j < length (partitions s) \<Longrightarrow> size_p (partitions s' ! j) = size_p (partitions s ! j)"
    and "j < length (partitions s) \<Longrightarrow> id_p (partitions s' ! j) = id_p (partitions s ! j)"
  using assms
  by (auto simp: store_replica_def Let_def partitions_get_def nth_list_update split: if_splits)

lemma store_replica_data:
  assumes "store_replica now k d p i s = Inr s'" and "j < length (partitions s)"
  shows "data_p (partitions s' ! j) k' =
           (if j = (p + i) mod partitionCount s \<and> k' = k
            then Some \<lparr> key_i = k, data_i = d, timestamp = now i, partition_i = j,
                        isReplica = Some True, primaryPartition = Some p \<rparr>
            else data_p (partitions s ! j) k')"
  using assms
  by (auto simp: store_replica_def Let_def partitions_get_def nth_list_update split: if_splits)

lemma store_replica_succeeds:
  assumes "wf_storage s" and "0 < partitionCount s"
  shows "\<exists>s'. store_replica now k d p i s = Inr s'"
  using assms by (simp add: store_replica_def Let_def partitions_get_def wf_storage_def)

lemma store_replica_wf:
  "store_replica now k d p i s = Inr s' \<Longrightarrow> wf_storage s \<Longrightarrow> wf_storage s'"
  by (simp add: wf_storage_def store_replica_frame)

lemma store_replicas_frame:
  assumes "store_replicas now k d p is s = Inr s'"
  shows "length (partitions s') = length (partitions s)
       \<and> partitionCount s' = partitionCount s
       \<and> replicationFactor s' = replicationFactor s
       \<and> (\<forall>j < length (partitions s). itemCount (partitions s' ! j) = itemCount (partitions s ! j)
             \<and> size_p (partitions s' ! j) = size_p (partitions s ! j)
             \<and> id_p (partitions s' ! j) = id_p (partitions s ! j))"
  using assms
proof (induction "is" arbitrary: s)
  case Nil
  then show ?case by simp
next
  case (Cons i "is")
  from Cons.prems obtain s1 where s1: "store_replica now k d p i s = Inr s1"
    and rest: "store_replicas now k d p is s1 = Inr s'"
    by (auto split: sum.splits)
  from Cons.IH [OF rest] store_replica_frame [OF s1] show ?case by simp
qed

lemma store_replicas_succeeds:
  assumes "wf_storage s" and "0 < partitionCount s"
  shows "\<exists>s'. store_replicas now k d p is s = Inr s'"
  using assms
proof (induction "is" arbitrary: s)
  case Nil
  then show ?case by simp
next
  case (Cons i "is")
  from store_replica_succeeds [OF Cons.prems] obtain s1
    where s1: "store_replica now k d p i s = Inr s1" by blast
  have "wf_storage s1" "0 < partitionCount s1"
    using s1 Cons.prems by (simp_all add: store_replica_wf store_replica_frame)
  from Cons.IH [OF this] s1 show ?case by simp
qed

text \<open>Every write of one \<open>store\<close> call carries the same payload, so an entry for the key
  that holds it keeps holding it through the replica writes.\<close>

lemma store_replicas_payload:
  assumes "store_replicas now k d p is s = Inr s'" and "j < length (partitions s)"
    and "\<exists>item. data_p (partitions s ! j) k = Some item \<and> data_i item = d"
  shows "\<exists>item. data_p (partitions s' ! j) k = Some item \<and> data_i item = d"
  using assms
proof (induction "is" arbitrary: s)
  case Nil
  then show ?case by simp
next
  case (Cons i "is")
  from Cons.prems(1) obtain s1 where s1: "store_replica now k d p i s = Inr s1"
    and rest: "store_replicas now k d p is s1 = Inr s'"
    by (auto split: sum.splits)
  have "j < length (partitions s1)"
    using Cons.prems(2) store_replica_frame(1) [OF s1] by simp
  moreover have "\<exists>item. data_p (partitions s1 ! j) k = Some item \<and> data_i item = d"
    using Cons.prems(3) by (simp add: store_replica_data [OF s1 Cons.prems(2)])
  ultimately show ?case by (rule Cons.IH [OF rest])
qed

lemma store_replicas_other_key:
  assumes "store_replicas now k d p is s = Inr s'" and "j < length (partitions s)" and "k' \<noteq> k"
  shows "data_p (partitions s' ! j) k' = data_p (partitions s ! j) k'"
  using assms
proof (induction "is" arbitrary: s)
  case Nil
  then show ?case by simp
next
  case (Cons i "is")
  from Cons.prems(1) obtain s1 where s1: "store_replica now k d p i s = Inr s1"
    and rest: "store_replicas now k d p is s1 = Inr s'"
    by (auto split: sum.splits)
  have "j < length (partitions s1)"
    using Cons.prems(2) store_replica_frame(1) [OF s1] by simp
  from Cons.IH [OF rest this Cons.prems(3)] show ?case
    by (simp add: store_replica_data [OF s1 Cons.prems(2)] Cons.prems(3))
qed

lemma store_succeeds:
  assumes "wf_storage s" and "0 < partitionCount s"
  shows "\<exists>s'. store now len s k d = Inr s'"
proof -
  obtain p where p: "getPartition s k = Some p"
    using assms(2) by (simp add: getPartition_def)
  then have "p < partitionCount s" by (rule getPartition_range)
  then have g: "partitions_get s p = Some (partitions s ! p)"
    using assms(1) by (simp add: partitions_get_def wf_storage_def)
  let ?s1 = "s\<lparr> partitions := (partitions s)[p :=
                      (partitions s ! p)\<lparr> data_p := (data_p (partitions s ! p))(k \<mapsto>
                          \<lparr> key_i = k, data_i = d, timestamp = now 0, partition_i = p,
                            isReplica = None, primaryPartition = None \<rparr>),
                        itemCount := itemCount (partitions s ! p) + 1,
                        size_p := size_p (partitions s ! p) + len d \<rparr>] \<rparr>"
  have "wf_storage ?s1" "0 < partitionCount ?s1"
    using assms by (simp_all add: wf_storage_def)
  from store_replicas_succeeds [OF this] show ?thesis
    by (simp add: store_def p g)
qed

lemma store_effect:
  assumes st: "store now len s k d = Inr s'" and wf: "wf_storage s"
  obtains p where "getPartition s k = Some p" and "p < partitionCount s"
    and "wf_storage s'"
    and "partitionCount s' = partitionCount s"
    and "replicationFactor s' = replicationFactor s"
    and "\<And>j. j < partitionCount s \<Longrightarrow>
           itemCount (partitions s' ! j) = itemCount (partitions s ! j) + (if j = p then 1 else 0)"
    and "\<And>j. j < partitionCount s \<Longrightarrow>
           size_p (partitions s' ! j) = size_p (partitions s ! j) + (if j = p then len d else 0)"
    and "\<exists>item. data_p (partitions s' ! p) k = Some item \<and> data_i item = d"
    and "\<And>j k'. j < partitionCount s \<Longrightarrow> k' \<noteq> k \<Longrightarrow>
           data_p (partitions s' ! j) k' = data_p (partitions s ! j) k'"
proof -
  from st obtain p where p: "getPartition s k = Some p"
    by (auto simp: store_def split: option.splits)
  then have pr: "p < partitionCount s" by (rule getPartition_range)
  then have g: "partitions_get s p = Some (partitions s ! p)"
    using wf by (simp add: partitions_get_def wf_storage_def)
  let ?s1 = "s\<lparr> partitions := (partitions s)[p :=
                      (partitions s ! p)\<lparr> data_p := (data_p (partitions s ! p))(k \<mapsto>
                          \<lparr> key_i = k, data_i = d, timestamp = now 0, partition_i = p,
                            isReplica = None, primaryPartition = None \<rparr>),
                        itemCount := itemCount (partitions s ! p) + 1,
                        size_p := size_p (partitions s ! p) + len d \<rparr>] \<rparr>"
  have r: "store_replicas now k d p [1..<replicationFactor s] ?s1 = Inr s'"
    using st by (simp add: store_def p g)
  have len1: "length (partitions ?s1) = partitionCount s"
    using wf by (simp add: wf_storage_def)
  note fr = store_replicas_frame [OF r]
  have 1: "wf_storage s'" using fr wf by (simp add: wf_storage_def)
  have 2: "partitionCount s' = partitionCount s" using fr by simp
  have 3: "replicationFactor s' = replicationFactor s" using fr by simp
  have 4: "itemCount (partitions s' ! j) = itemCount (partitions s ! j) + (if j = p then 1 else 0)"
    if "j < partitionCount s" for j
    using fr that wf pr by (simp add: wf_storage_def nth_list_update)
  have 5: "size_p (partitions s' ! j) = size_p (partitions s ! j) + (if j = p then len d else 0)"
    if "j < partitionCount s" for j
    using fr that wf pr by (simp add: wf_storage_def nth_list_update)
  have 6: "\<exists>item. data_p (partitions s' ! p) k = Some item \<and> data_i item = d"
    by (rule store_replicas_payload [OF r]) (use pr len1 in simp_all)
  have 7: "data_p (partitions s' ! j) k' = data_p (partitions s ! j) k'"
    if "j < partitionCount s" "k' \<noteq> k" for j k'
    using store_replicas_other_key [OF r, of j k'] that len1 wf pr
    by (simp add: wf_storage_def nth_list_update)
  from p pr 1 2 3 4 5 6 7 show thesis by (rule that)
qed

lemma store_retrieve:
  assumes "store now len s k d = Inr s'" and "wf_storage s"
  shows "retrieve s' k = Inr d"
proof -
  from assms obtain p where p: "getPartition s k = Some p" "p < partitionCount s"
    and wf': "wf_storage s'" and pc: "partitionCount s' = partitionCount s"
    and item: "\<exists>item. data_p (partitions s' ! p) k = Some item \<and> data_i item = d"
    by (rule store_effect)
  have "getPartition s' k = Some p" using p pc by (simp add: getPartition_def)
  moreover have "partitions_get s' p = Some (partitions s' ! p)"
    using p wf' pc by (simp add: partitions_get_def wf_storage_def)
  ultimately show ?thesis using item by (auto simp: retrieve_def)
qed

section \<open>Claims about the partitioner and the shard store\<close>

lemma key_hash_k1: "key_hash (js ''k1'') = 3366"
  by (simp add: js_def key_hash_def hash_step_def shl32_def and32_def ToInt32_def)

lemma key_hash_image_001: "key_hash (js ''image_001.jpg'') = 436306880"
  by (simp add: js_def key_hash_def hash_step_def shl32_def and32_def ToInt32_def)

lemma key_hash_a: "key_hash (js ''a'') = 97"
  by (simp add: js_def key_hash_def hash_step_def shl32_def and32_def ToInt32_def)

lemma key_hash_b: "key_hash (js ''b'') = 98"
  by (simp add: js_def key_hash_def hash_step_def shl32_def and32_def ToInt32_def)

lemma store_partitionCount:
  assumes "store now len s k d = Inr s'"
  shows "partitionCount s' = partitionCount s"
proof -
  from assms obtain p part where
    "store_replicas now k d p [1..<replicationFactor s]
       (s\<lparr> partitions := (partitions s)[p := part] \<rparr>) = Inr s'"
    by (auto simp: store_def split: option.splits)
  from store_replicas_frame [OF this] show ?thesis by simp
qed

text \<open>
  Claim C2.  For a store with \<open>P > 0\<close> partitions and every key, \<open>getPartition\<close>
  returns an integer in \<open>[0, P)\<close>, and it is the value of the specification's
  recurrence in signed 32-bit arithmetic followed by the absolute value modulo \<open>P\<close>.
  The empty key gives partition 0.  The result depends on the key and on \<open>P\<close> only,
  so a later call with the same key, after any \<open>store\<close>, returns the same partition.
\<close>

theorem C2_partitioner:
  fixes s :: "'v DistributedStorage"
  assumes "0 < partitionCount s"
  shows "(\<exists>p. getPartition s k = Some p \<and> p < partitionCount s
              \<and> p = spec_partition (partitionCount s) k)
       \<and> getPartition s [] = Some 0
       \<and> (\<forall>now len k' d s'. store now len s k' d = Inr s' \<longrightarrow> getPartition s' k = getPartition s k)"
proof (intro conjI allI impI)
  show "\<exists>p. getPartition s k = Some p \<and> p < partitionCount s \<and> p = spec_partition (partitionCount s) k"
    using getPartition_spec [OF assms, of k] getPartition_range [of s k] by simp
  show "getPartition s [] = Some 0"
    using assms by (simp add: getPartition_def key_hash_def)
  show "getPartition s' k = getPartition s k" if "store now len s k' d = Inr s'" for now len k' d s'
    using store_partitionCount [OF that] by (simp add: getPartition_def)
qed

text \<open>C2 at the default store (8 partitions) and the key \<open>image_001.jpg\<close>.\<close>

theorem C2_partitioner_witness:
  "0 < partitionCount (DistributedStorage_new 8 2 :: unit DistributedStorage)
   \<and> getPartition (DistributedStorage_new 8 2 :: unit DistributedStorage) (js ''image_001.jpg'') = Some 0
   \<and> spec_partition 8 (js ''image_001.jpg'') = 0
   \<and> getPartition (DistributedStorage_new 8 2 :: unit DistributedStorage) [] = Some 0"
proof -
  have h: "0 < partitionCount (DistributedStorage_new 8 2 :: unit DistributedStorage)"
    by (simp add: DistributedStorage_new_def)
  have g: "getPartition (DistributedStorage_new 8 2 :: unit DistributedStorage) (js ''image_001.jpg'') = Some 0"
    by (simp add: getPartition_def DistributedStorage_new_def key_hash_image_001)
  show ?thesis
    using h g C2_partitioner [OF h, of "js ''image_001.jpg''"]
    by (simp add: DistributedStorage_new_def)
qed

text \<open>
  Claim C3 as stated fails: after \<open>store("k1", {a:1})\<close> with \<open>P = 4\<close> and
  \<open>R = 2\<close>, the replica partition \<open>(2 + 1) mod 4\<close> reports an \<open>itemCount\<close>
  that is not 1.
\<close>

theorem C3_counterexample:
  "case store (\<lambda>i. 0) (\<lambda>v. 7) (DistributedStorage_new 4 2) (js ''k1'') [(''a'', 1 :: int)] of
     Inl e \<Rightarrow> False
   | Inr s' \<Rightarrow>
       getPartition s' (js ''k1'') = Some 2
     \<and> itemCount_st (partitions_st (getStats s') ! ((2 + 1) mod 4)) \<noteq> 1"
  by (simp add: store_def store_replica_def partitions_get_def getPartition_def key_hash_k1
        DistributedStorage_new_def getStats_def Let_def upt_rec)

text \<open>
  Claim C3, amended.  With \<open>P = 4\<close> and \<open>R = 2\<close>, \<open>store("k1", v)\<close> on the empty
  store succeeds; then \<open>retrieve("k1")\<close> returns \<open>v\<close>, the partitions that contain
  the key are exactly the primary 2 and the replica \<open>(2 + 1) mod 4\<close>, and \<open>getStats\<close>
  reports \<open>itemCount\<close> 1 for the primary and 0 for the replica.
\<close>

theorem C3_store_k1:
  "case store now len (DistributedStorage_new 4 2) (js ''k1'') v of
     Inl e \<Rightarrow> False
   | Inr s' \<Rightarrow>
       retrieve s' (js ''k1'') = Inr v
     \<and> getPartition s' (js ''k1'') = Some 2
     \<and> map id_p (filter (\<lambda>p. data_p p (js ''k1'') \<noteq> None) (partitions s')) = [2, (2 + 1) mod 4]
     \<and> itemCount_st (partitions_st (getStats s') ! 2) = 1
     \<and> itemCount_st (partitions_st (getStats s') ! ((2 + 1) mod 4)) = 0
     \<and> map id_st (partitions_st (getStats s')) = [0, 1, 2, 3]"
  by (simp add: store_def store_replica_def partitions_get_def getPartition_def key_hash_k1
        DistributedStorage_new_def retrieve_def getStats_def Let_def upt_rec)




lemma store_all_wf:
  assumes "store_all len calls s = Inr s'" and "wf_storage s"
  shows "wf_storage s' \<and> partitionCount s' = partitionCount s"
  using assms
proof (induction calls arbitrary: s)
  case Nil
  then show ?case by simp
next
  case (Cons c calls)
  obtain now k d where c: "c = (now, k, d)" by (cases c) auto
  from Cons.prems(1) c obtain s1 where s1: "store now len s k d = Inr s1"
    and rest: "store_all len calls s1 = Inr s'"
    by (auto split: sum.splits)
  from s1 Cons.prems(2) have "wf_storage s1" "partitionCount s1 = partitionCount s"
    by (auto elim: store_effect)
  with Cons.IH [OF rest] show ?case by simp
qed

lemma store_all_counters:
  assumes "store_all len calls s = Inr s'" and "wf_storage s" and "j < partitionCount s"
  shows "itemCount (partitions s' ! j) =
           itemCount (partitions s ! j)
           + length (filter (\<lambda>(now, k, d). getPartition s k = Some j) calls)
       \<and> size_p (partitions s' ! j) =
           size_p (partitions s ! j)
           + sum_list (map (\<lambda>(now, k, d). len d) (filter (\<lambda>(now, k, d). getPartition s k = Some j) calls))"
  using assms
proof (induction calls arbitrary: s)
  case Nil
  then show ?case by simp
next
  case (Cons c calls)
  obtain now k d where c: "c = (now, k, d)" by (cases c) auto
  from Cons.prems(1) c obtain s1 where s1: "store now len s k d = Inr s1"
    and rest: "store_all len calls s1 = Inr s'"
    by (auto split: sum.splits)
  from s1 Cons.prems(2) obtain p where p: "getPartition s k = Some p"
    and wf1: "wf_storage s1" and pc: "partitionCount s1 = partitionCount s"
    and ic: "itemCount (partitions s1 ! j) = itemCount (partitions s ! j) + (if j = p then 1 else 0)"
    and sz: "size_p (partitions s1 ! j) = size_p (partitions s ! j) + (if j = p then len d else 0)"
    using Cons.prems(3) by (auto elim!: store_effect)
  have same: "getPartition s1 k' = getPartition s k'" for k'
    using pc by (simp add: getPartition_def)
  from Cons.IH [OF rest wf1] Cons.prems(3) pc
  show ?case by (auto simp: c p ic sz same)
qed

text \<open>
  Claim C10.  On a store reached from the constructor by \<open>store\<close> calls, one more
  \<open>store(k, d)\<close> adds 1 to \<open>itemCount\<close> and \<open>len d\<close> to \<open>size\<close> of the
  primary partition of \<open>k\<close> and leaves the counters of every other partition as
  they were, whether or not \<open>k\<close> was present; a replica write changes no counter;
  the entry is overwritten (\<open>retrieve\<close> returns the new value); and the
  \<open>itemCount\<close> of a partition is the number of \<open>store\<close> calls whose primary
  partition it is.
\<close>

theorem C10_counters_primary_only:
  fixes s :: "'v DistributedStorage"
  assumes "store_all len calls (DistributedStorage_new P R) = Inr s"
    and "store now len s k d = Inr s'"
  shows "\<exists>p. getPartition s k = Some p \<and> p < P
       \<and> (\<forall>j<P. itemCount (partitions s' ! j) = itemCount (partitions s ! j) + (if j = p then 1 else 0)
                \<and> size_p (partitions s' ! j) = size_p (partitions s ! j) + (if j = p then len d else 0))
       \<and> (\<forall>i s1 s2. store_replica now k d p i s1 = Inr s2 \<longrightarrow>
             map itemCount (partitions s2) = map itemCount (partitions s1)
           \<and> map size_p (partitions s2) = map size_p (partitions s1))
       \<and> retrieve s' k = Inr d
       \<and> (\<forall>j<P. itemCount (partitions s ! j) =
             length (filter (\<lambda>(now, k, d).
               getPartition (DistributedStorage_new P R :: 'v DistributedStorage) k = Some j) calls))"
proof -
  let ?s0 = "DistributedStorage_new P R :: 'v DistributedStorage"
  have wf0: "wf_storage ?s0" by (rule wf_storage_new)
  have P0: "partitionCount ?s0 = P" by (simp add: DistributedStorage_new_def)
  from store_all_wf [OF assms(1) wf0] P0 have wf: "wf_storage s" and pc: "partitionCount s = P"
    by simp_all
  from assms(2) wf obtain p where p: "getPartition s k = Some p" "p < partitionCount s"
    and ic: "\<And>j. j < partitionCount s \<Longrightarrow>
           itemCount (partitions s' ! j) = itemCount (partitions s ! j) + (if j = p then 1 else 0)"
    and sz: "\<And>j. j < partitionCount s \<Longrightarrow>
           size_p (partitions s' ! j) = size_p (partitions s ! j) + (if j = p then len d else 0)"
    by (rule store_effect) (rule that)
  have rep: "map itemCount (partitions s2) = map itemCount (partitions s1)
           \<and> map size_p (partitions s2) = map size_p (partitions s1)"
    if "store_replica now k d p i s1 = Inr s2" for i s1 s2
    using store_replica_frame [OF that] by (auto intro!: nth_equalityI)
  have cnt: "itemCount (partitions s ! j) =
      length (filter (\<lambda>(now, k, d). getPartition ?s0 k = Some j) calls)" if "j < P" for j
  proof -
    have "itemCount (partitions ?s0 ! j) = 0" using that by (simp add: DistributedStorage_new_def)
    with store_all_counters [OF assms(1) wf0, of j] that P0 show ?thesis by simp
  qed
  from p pc ic sz rep cnt store_retrieve [OF assms(2) wf] show ?thesis by auto
qed

text \<open>
  C10 at \<open>P = 4\<close>, \<open>R = 2\<close>: the key \<open>k1\<close> stored twice gives \<open>itemCount\<close> 2 on
  its primary partition, which holds one key, and 0 on the replica partition.
\<close>

theorem C10_counters_primary_only_witness:
  "\<exists>s s'. store_all (\<lambda>v. 1) [(\<lambda>i. 0, js ''k1'', 10 :: int)] (DistributedStorage_new 4 2) = Inr s
       \<and> store (\<lambda>i. 0) (\<lambda>v. 1) s (js ''k1'') 20 = Inr s'
       \<and> getPartition s (js ''k1'') = Some 2
       \<and> retrieve s (js ''k1'') = Inr 10
       \<and> retrieve s' (js ''k1'') = Inr 20
       \<and> itemCount (partitions s ! 2) = 1
       \<and> itemCount (partitions s' ! 2) = 2
       \<and> itemCount (partitions s' ! 3) = 0"
proof -
  let ?s0 = "DistributedStorage_new 4 2 :: int DistributedStorage"
  have wf0: "wf_storage ?s0" by (rule wf_storage_new)
  have P0: "0 < partitionCount ?s0" by (simp add: DistributedStorage_new_def)
  from store_succeeds [OF wf0 P0] obtain s
    where s: "store (\<lambda>i. 0) (\<lambda>v. 1) ?s0 (js ''k1'') 10 = Inr s" by blast
  then have sa: "store_all (\<lambda>v. 1) [(\<lambda>i. 0, js ''k1'', 10 :: int)] ?s0 = Inr s" by simp
  from store_all_wf [OF sa wf0] have wf: "wf_storage s" and pc: "partitionCount s = 4"
    by (simp_all add: DistributedStorage_new_def)
  from store_succeeds [OF wf, of "\<lambda>i. 0" "\<lambda>v. 1" "js ''k1''" 20] pc obtain s'
    where s': "store (\<lambda>i. 0) (\<lambda>v. 1) s (js ''k1'') 20 = Inr s'" by auto
  have g: "getPartition s (js ''k1'') = Some 2"
    by (simp add: getPartition_def pc key_hash_k1)
  have g0: "getPartition ?s0 (js ''k1'') = Some 2"
    by (simp add: getPartition_def DistributedStorage_new_def key_hash_k1)
  from C10_counters_primary_only [OF sa s'] g
  have step: "\<forall>j<4. itemCount (partitions s' ! j) = itemCount (partitions s ! j) + (if j = 2 then 1 else 0)"
    and cnt: "\<forall>j<4. itemCount (partitions s ! j) =
             length (filter (\<lambda>(now, k, d). getPartition ?s0 k = Some j) [(\<lambda>i. 0, js ''k1'', 10 :: int)])"
    and r: "retrieve s' (js ''k1'') = Inr 20"
    by auto
  have "itemCount (partitions s ! 2) = 1" "itemCount (partitions s ! 3) = 0"
    using cnt [rule_format, of 2] cnt [rule_format, of 3] by (simp_all add: g0)
  then have "itemCount (partitions s ! 2) = 1" "itemCount (partitions s' ! 2) = 2"
    "itemCount (partitions s' ! 3) = 0"
    using step [rule_format, of 2] step [rule_format, of 3] by simp_all
  moreover note r
  moreover have "retrieve s (js ''k1'') = Inr 10" by (rule store_retrieve [OF s wf0])
  ultimately show ?thesis using sa s' g by blast
qed

text \<open>
  Claim C9 as stated fails, whatever the digest function is: the ingest path's
  partition is a function of the image bytes alone, so two items with the same
  bytes and the keys \<open>a\<close> and \<open>b\<close>, which \<open>getPartition\<close> sends to partitions 1
  and 2, cannot both agree with it.
\<close>

theorem C9_counterexample:
  "\<not> (\<exists>md5. \<forall>k buffer.
        ingest_partition md5 buffer = getPartition (DistributedStorage_new 8 2 :: unit DistributedStorage) k)"
proof
  assume "\<exists>md5. \<forall>k buffer.
        ingest_partition md5 buffer = getPartition (DistributedStorage_new 8 2 :: unit DistributedStorage) k"
  then obtain md5 where a: "\<And>k buffer.
        ingest_partition md5 buffer = getPartition (DistributedStorage_new 8 2 :: unit DistributedStorage) k"
    by blast
  have "getPartition (DistributedStorage_new 8 2 :: unit DistributedStorage) (js ''a'')
      = getPartition (DistributedStorage_new 8 2 :: unit DistributedStorage) (js ''b'')"
    using a [of "[]" "js ''a''"] a [of "[]" "js ''b''"] by simp
  then show False
    by (simp add: getPartition_def DistributedStorage_new_def key_hash_a key_hash_b)
qed

text \<open>
  Claim C9, amended.  The bulk-ingest path assigns the first byte of the MD5 digest
  of the image bytes modulo 8: a value in \<open>[0, 8)\<close> that depends on the digest of
  the content only, not on a key.  The in-process path assigns \<open>getPartition\<close> of
  the image id over 8 partitions, the specification's hash of the key, in
  \<open>[0, 8)\<close>.  Each is a function of its input; they are not the same function.
\<close>

theorem C9_partition_paths:
  assumes "length (md5 buffer) = 16"
  shows "(\<exists>p. ingest_partition md5 buffer = Some p \<and> p < 8 \<and> p = unat (md5 buffer ! 0) mod 8)
       \<and> (\<forall>buffer'. md5 buffer' = md5 buffer \<longrightarrow> ingest_partition md5 buffer' = ingest_partition md5 buffer)
       \<and> (\<exists>q. getPartition (DistributedStorage_new 8 2 :: unit DistributedStorage) k = Some q
              \<and> q < 8 \<and> q = spec_partition 8 k)"
proof -
  from assms obtain b bs where "md5 buffer = b # bs" by (cases "md5 buffer") auto
  then have "\<exists>p. ingest_partition md5 buffer = Some p \<and> p < 8 \<and> p = unat (md5 buffer ! 0) mod 8"
    by (simp add: ingest_partition_def)
  moreover have "\<exists>q. getPartition (DistributedStorage_new 8 2 :: unit DistributedStorage) k = Some q
              \<and> q < 8 \<and> q = spec_partition 8 k"
    using getPartition_spec [of "DistributedStorage_new 8 2 :: unit DistributedStorage" k]
      getPartition_range [of "DistributedStorage_new 8 2 :: unit DistributedStorage" k]
    by (simp add: DistributedStorage_new_def)
  ultimately show ?thesis by (simp add: ingest_partition_def)
qed

text \<open>C9 amended, at the digest of the empty buffer and the key \<open>a\<close>.\<close>

theorem C9_partition_paths_witness:
  "length ((\<lambda>b. [212, 29, 140, 217, 143, 0, 178, 4, 233, 128, 9, 152, 236, 248, 66, 126]) ([] :: 8 word list)) = 16
   \<and> ingest_partition (\<lambda>b. [212, 29, 140, 217, 143, 0, 178, 4, 233, 128, 9, 152, 236, 248, 66, 126]) [] = Some 4
   \<and> getPartition (DistributedStorage_new 8 2 :: unit DistributedStorage) (js ''a'') = Some 1"
proof -
  let ?md5 = "\<lambda>b :: 8 word list. [212, 29, 140, 217, 143, 0, 178, 4, 233, 128, 9, 152, 236, 248, 66, 126 :: 8 word]"
  have h: "length (?md5 []) = 16" by simp
  have g: "getPartition (DistributedStorage_new 8 2 :: unit DistributedStorage) (js ''a'') = Some 1"
    by (simp add: getPartition_def DistributedStorage_new_def key_hash_a)
  from C9_partition_paths [of ?md5 "[]" "js ''a''", OF h] g
  show ?thesis by simp
qed

section \<open>The worker pool: selection and the in-flight bound\<close>


lemma findIndex_Some:
  "findIndex P xs = Some i \<Longrightarrow> i < length xs \<and> P (xs ! i) \<and> (\<forall>j<i. \<not> P (xs ! j))"
proof (induction xs arbitrary: i)
  case Nil
  then show ?case by simp
next
  case (Cons x xs)
  show ?case
  proof (cases "P x")
    case True
    with Cons.prems show ?thesis by simp
  next
    case False
    with Cons.prems obtain k where k: "findIndex P xs = Some k" "i = Suc k" by auto
    from Cons.IH [OF k(1)] False k(2) show ?thesis
      by (auto simp: nth_Cons split: nat.splits)
  qed
qed

lemma findIndex_None: "findIndex P xs = None \<longleftrightarrow> (\<forall>x \<in> set xs. \<not> P x)"
  by (induction xs) auto

lemma leastBusy_fold:
  assumes "m < length ws" and "set idxs \<subseteq> {..<length ws}"
  shows "foldl (\<lambda>m j. if processed (ws ! j) < processed (ws ! m) then j else m) m idxs < length ws
       \<and> (\<forall>j \<in> insert m (set idxs).
            processed (ws ! foldl (\<lambda>m j. if processed (ws ! j) < processed (ws ! m) then j else m) m idxs)
              \<le> processed (ws ! j))"
  using assms
proof (induction idxs arbitrary: m)
  case Nil
  then show ?case by simp
next
  case (Cons j idxs)
  let ?m' = "if processed (ws ! j) < processed (ws ! m) then j else m"
  have m': "?m' < length ws" using Cons.prems by auto
  have idxs: "set idxs \<subseteq> {..<length ws}" using Cons.prems by auto
  from Cons.IH [OF m' idxs]
  have lt: "foldl (\<lambda>m j. if processed (ws ! j) < processed (ws ! m) then j else m) ?m' idxs < length ws"
    and mn: "\<forall>i \<in> insert ?m' (set idxs).
            processed (ws ! foldl (\<lambda>m j. if processed (ws ! j) < processed (ws ! m) then j else m) ?m' idxs)
              \<le> processed (ws ! i)"
    by blast+
  have "processed (ws ! ?m') \<le> processed (ws ! m)" "processed (ws ! ?m') \<le> processed (ws ! j)"
    by auto
  with mn lt show ?case
    by (auto simp del: split: if_splits intro: order_trans)
qed

lemma leastBusy_min:
  assumes "ws \<noteq> []"
  shows "leastBusy ws < length ws \<and> (\<forall>j<length ws. processed (ws ! leastBusy ws) \<le> processed (ws ! j))"
proof -
  have 0: "0 < length ws" using assms by simp
  have s: "set [1..<length ws] \<subseteq> {..<length ws}" by auto
  from leastBusy_fold [OF 0 s]
  have lt: "leastBusy ws < length ws"
    and mn: "\<forall>j \<in> insert 0 (set [1..<length ws]). processed (ws ! leastBusy ws) \<le> processed (ws ! j)"
    unfolding leastBusy_def by blast+
  have "processed (ws ! leastBusy ws) \<le> processed (ws ! j)" if "j < length ws" for j
  proof (cases j)
    case 0
    with mn show ?thesis by simp
  next
    case (Suc k)
    with that have "j \<in> set [1..<length ws]" by simp
    with mn show ?thesis by blast
  qed
  with lt show ?thesis by blast
qed

lemma getNextWorker_idle:
  assumes "\<exists>j<length ws. \<not> busy (ws ! j)"
  shows "\<exists>i. getNextWorker ws = Some (i, ws[i := (ws ! i)\<lparr> processed := processed (ws ! i) + 1 \<rparr>])
           \<and> i < length ws \<and> \<not> busy (ws ! i) \<and> (\<forall>j<i. busy (ws ! j))"
proof -
  from assms have "findIndex (\<lambda>w. \<not> busy w) ws \<noteq> None"
    by (auto simp: findIndex_None)
  then obtain i where i: "findIndex (\<lambda>w. \<not> busy w) ws = Some i" by auto
  from findIndex_Some [OF i] i show ?thesis
    by (auto simp: getNextWorker_def)
qed

lemma getNextWorker_all_busy:
  assumes "\<forall>j<length ws. busy (ws ! j)" and "ws \<noteq> []"
  shows "\<exists>i. getNextWorker ws = Some (i, ws[i := (ws ! i)\<lparr> processed := processed (ws ! i) + 1 \<rparr>])
           \<and> i < length ws \<and> (\<forall>j<length ws. processed (ws ! i) \<le> processed (ws ! j))"
proof -
  from assms(1) have "findIndex (\<lambda>w. \<not> busy w) ws = None"
    by (auto simp: findIndex_None in_set_conv_nth)
  with leastBusy_min [OF assms(2)] assms(2) show ?thesis
    by (auto simp: getNextWorker_def Let_def)
qed

lemma getNextWorker_nonempty:
  assumes "ws \<noteq> []"
  shows "\<exists>i. getNextWorker ws = Some (i, ws[i := (ws ! i)\<lparr> processed := processed (ws ! i) + 1 \<rparr>])
           \<and> i < length ws"
proof (cases "\<exists>j<length ws. \<not> busy (ws ! j)")
  case True
  from getNextWorker_idle [OF this] show ?thesis by blast
next
  case False
  then have "\<forall>j<length ws. busy (ws ! j)" by blast
  from getNextWorker_all_busy [OF this assms] show ?thesis by blast
qed

lemma map_update_same:
  assumes "f y = f (xs ! i)"
  shows "map f (xs[i := y]) = map f xs"
proof (cases "i < length xs")
  case True
  then have "(map f xs)[i := f (xs ! i)] = map f xs"
    by (simp add: list_update_same_conv)
  with assms show ?thesis by (simp add: map_update)
next
  case False
  then have "length xs \<le> i" by arith
  then show ?thesis by (simp add: list_update_beyond)
qed

lemma id_w_update_processed:
  "map id_w (ws[i := (ws ! i)\<lparr> processed := n \<rparr>]) = map id_w ws"
  by (rule map_update_same) simp

lemma id_w_update_busy:
  "map id_w (ws[i := (ws ! i)\<lparr> busy := b \<rparr>]) = map id_w ws"
  by (rule map_update_same) simp

lemma processed_update_busy:
  "map processed (ws[i := (ws ! i)\<lparr> busy := b \<rparr>]) = map processed ws"
  by (rule map_update_same) simp

lemma settle_frame [simp]:
  "workers (settle n v p) = workers p"
  "concurrentLimit (settle n v p) = concurrentLimit p"
  "activeProcessing (settle n v p) = activeProcessing p"
  "taskQueue (settle n v p) = taskQueue p"
  "executing (settle n v p) = executing p"
  "isProcessingQueue (settle n v p) = isProcessingQueue p"
  "coordinator (settle n v p) = coordinator p"
  "onAssignCallback (settle n v p) = onAssignCallback p"
  "processor (settle n v p) = processor p"
  "length (promises (settle n v p)) = length (promises p)"
  by (simp_all add: settle_def)

lemma executeTask_begin_effect:
  assumes "workers p \<noteq> []"
  obtains i where "i < length (workers p)"
    and "getNextWorker (workers p)
           = Some (i, (workers p)[i := (workers p ! i)\<lparr> processed := processed (workers p ! i) + 1 \<rparr>])"
    and "fst (executeTask_begin task n (p, c)) =
           p\<lparr> activeProcessing := activeProcessing p + 1,
              workers := (workers p)[i := (workers p ! i)\<lparr> processed := processed (workers p ! i) + 1,
                                                        busy := True \<rparr>],
              executing := executing p @ [(task, i)] \<rparr>"
    and "snd (executeTask_begin task n (p, c)) =
           (case onAssignCallback p of None \<Rightarrow> c
            | Some callback \<Rightarrow> callback (id_w (workers p ! i)) n (imageId task) c)"
proof -
  from getNextWorker_nonempty [OF assms] obtain i where
    g: "getNextWorker (workers p)
           = Some (i, (workers p)[i := (workers p ! i)\<lparr> processed := processed (workers p ! i) + 1 \<rparr>])"
    and i: "i < length (workers p)" by blast
  show thesis
    by (rule that [OF i g]) (simp_all add: executeTask_begin_def Let_def g i split: option.split)
qed

lemma executeTask_begin_frame:
  "taskQueue (fst (executeTask_begin task n (p, c))) = taskQueue p"
  "concurrentLimit (fst (executeTask_begin task n (p, c))) = concurrentLimit p"
  "activeProcessing (fst (executeTask_begin task n (p, c))) = activeProcessing p + 1"
  "isProcessingQueue (fst (executeTask_begin task n (p, c))) = isProcessingQueue p"
  "coordinator (fst (executeTask_begin task n (p, c))) = coordinator p"
  "onAssignCallback (fst (executeTask_begin task n (p, c))) = onAssignCallback p"
  "processor (fst (executeTask_begin task n (p, c))) = processor p"
  by (simp_all add: executeTask_begin_def Let_def split: option.split prod.split)

lemma pool_inv_frame [simp]:
  "pool_inv (p\<lparr> taskQueue := q \<rparr>) = pool_inv p"
  "pool_inv (p\<lparr> coordinator := k \<rparr>) = pool_inv p"
  "pool_inv (p\<lparr> isProcessingQueue := b \<rparr>) = pool_inv p"
  "pool_inv (p\<lparr> promises := ps \<rparr>) = pool_inv p"
  "pool_inv (p\<lparr> onAssignCallback := cb \<rparr>) = pool_inv p"
  by (simp_all add: pool_inv_def)

lemma pool_inv_settle [simp]: "pool_inv (settle n v p) = pool_inv p"
  by (simp add: pool_inv_def)

lemma executeTask_begin_inv:
  assumes "pool_inv p" and "activeProcessing p < int (concurrentLimit p)"
  shows "pool_inv (fst (executeTask_begin task n (p, c)))"
proof -
  from assms have "workers p \<noteq> []" by (auto simp: pool_inv_def)
  then obtain i where i: "i < length (workers p)"
    and e: "fst (executeTask_begin task n (p, c)) =
           p\<lparr> activeProcessing := activeProcessing p + 1,
              workers := (workers p)[i := (workers p ! i)\<lparr> processed := processed (workers p ! i) + 1,
                                                        busy := True \<rparr>],
              executing := executing p @ [(task, i)] \<rparr>"
    by (rule executeTask_begin_effect)
  have "map id_w ((workers p)[i := (workers p ! i)\<lparr> processed := processed (workers p ! i) + 1,
                                                        busy := True \<rparr>]) = map id_w (workers p)"
    by (rule map_update_same) simp
  with assms show ?thesis
    unfolding e by (simp add: pool_inv_def)
qed

lemma coordinator_run_inv:
  "pool_inv (fst s) \<Longrightarrow> pool_inv (fst (coordinator_run e s))"
proof (induction e s rule: coordinator_run.induct)
  case (1 p c)
  then show ?case by (simp add: coordinator_run.simps)
next
  case (2 p c)
  show ?case
  proof (cases "int (concurrentLimit p) \<le> activeProcessing p")
    case True
    with 2 show ?thesis by (simp add: coordinator_run.simps)
  next
    case False
    show ?thesis
    proof (cases "taskQueue p")
      case Nil
      with False 2 show ?thesis by (simp add: coordinator_run.simps)
    next
      case (Cons task rest)
      have "pool_inv (fst (executeTask_begin task (length (task # rest) - 1) (p\<lparr> taskQueue := rest \<rparr>, c)))"
        using "2.prems" False by (intro executeTask_begin_inv) simp_all
      from "2.IH"(2) [OF False Cons this] False Cons show ?thesis
        by (simp add: coordinator_run.simps)
    qed
  qed
qed

lemma executeTask_end_inv:
  assumes "pool_inv p" and "n < length (executing p)"
  shows "pool_inv (executeTask_end n r p)"
proof -
  have l: "length (take n (executing p) @ drop (Suc n) (executing p)) = length (executing p) - 1"
    using assms(2) by simp
  from assms l show ?thesis
    by (auto simp: executeTask_end_def Let_def pool_inv_def id_w_update_busy
             split: prod.split sum.split)
qed

lemma pool_inv_new: "pool_inv (WorkerPool_new env_url n)"
  by (simp add: pool_inv_def WorkerPool_new_def comp_def)

lemma pool_fire_inv:
  assumes "pool_fire a s = Some s'" and "pool_inv (fst s)"
  shows "pool_inv (fst s')"
proof (cases a)
  case (Submit img iid)
  obtain p c where s: "s = (p, c)" by (cases s)
  from assms s Submit show ?thesis
    by (auto simp: processImage_def processQueueCoordinator_def Let_def intro!: coordinator_run_inv)
next
  case (SetCallback cb)
  with assms show ?thesis by (auto simp: setOnAssignCallback_def)
next
  case Wake
  obtain p c where s: "s = (p, c)" by (cases s)
  from assms s Wake show ?thesis
    by (auto simp: coordinator_wake_def split: if_splits coordinator.splits intro!: coordinator_run_inv)
next
  case (Answer n r)
  with assms show ?thesis by (auto split: if_splits intro: executeTask_end_inv)
qed

lemma pool_run_inv:
  "pool_run acts s = Some s' \<Longrightarrow> pool_inv (fst s) \<Longrightarrow> pool_inv (fst s')"
proof (induction acts arbitrary: s)
  case Nil
  then show ?case by simp
next
  case (Cons a acts)
  from Cons.prems(1) obtain s1 where s1: "pool_fire a s = Some s1" and r: "pool_run acts s1 = Some s'"
    by (auto split: option.splits)
  from Cons.IH [OF r pool_fire_inv [OF s1 Cons.prems(2)]] show ?case .
qed

lemma coordinator_run_limit:
  "concurrentLimit (fst (coordinator_run e s)) = concurrentLimit (fst s)"
proof (induction e s rule: coordinator_run.induct)
  case (1 p c)
  then show ?case by (simp add: coordinator_run.simps)
next
  case (2 p c)
  then show ?case
    by (cases "taskQueue p") (simp_all add: coordinator_run.simps executeTask_begin_frame)
qed

lemma pool_fire_limit:
  assumes "pool_fire a s = Some s'"
  shows "concurrentLimit (fst s') = concurrentLimit (fst s)"
proof (cases a)
  case (Submit img iid)
  obtain p c where s: "s = (p, c)" by (cases s)
  from assms s Submit show ?thesis
    by (auto simp: processImage_def processQueueCoordinator_def Let_def coordinator_run_limit)
next
  case (SetCallback cb)
  with assms show ?thesis by (auto simp: setOnAssignCallback_def)
next
  case Wake
  obtain p c where s: "s = (p, c)" by (cases s)
  from assms s Wake show ?thesis
    by (auto simp: coordinator_wake_def coordinator_run_limit split: if_splits coordinator.splits)
next
  case (Answer n r)
  with assms show ?thesis
    by (auto simp: executeTask_end_def Let_def split: if_splits prod.splits sum.splits)
qed

lemma pool_run_limit:
  "pool_run acts s = Some s' \<Longrightarrow> concurrentLimit (fst s') = concurrentLimit (fst s)"
proof (induction acts arbitrary: s)
  case Nil
  then show ?case by simp
next
  case (Cons a acts)
  from Cons.prems(1) obtain s1 where s1: "pool_fire a s = Some s1" and r: "pool_run acts s1 = Some s'"
    by (auto split: option.splits)
  from Cons.IH [OF r] pool_fire_limit [OF s1] show ?case by simp
qed

lemma coordinator_run_saturated:
  assumes "int (concurrentLimit p) \<le> activeProcessing p"
  shows "\<exists>k. coordinator_run e (p, c) = (p\<lparr> coordinator := k \<rparr>, c)"
  using assms by (cases e) (auto simp: coordinator_run.simps)


section \<open>Claims about the worker pool\<close>

text \<open>
  Claim C4.  In every state the pool reaches from its constructor, by any sequence of
  submissions, callback registrations, timer wake-ups and describer answers, the
  in-flight counter \<open>activeProcessing\<close> is at most \<open>concurrentLimit\<close>, which is
  the worker count, and it is the number of \<open>executeTask\<close> calls awaiting the
  describer.  When the counter has reached the limit a run of the coordinator
  dispatches nothing: it only goes to sleep.  When the counter is below the limit
  and a task is queued, the coordinator dispatches the head of the queue, the
  counter is one higher after that dispatch, and the next decision is taken on the
  state with the counter so incremented.
\<close>

theorem C4_in_flight_bound:
  assumes "pool_run acts (WorkerPool_new env_url n, c0) = Some (p, c)"
  shows "activeProcessing p \<le> int (concurrentLimit p)
       \<and> concurrentLimit p = n
       \<and> length (workers p) = n
       \<and> activeProcessing p = int (length (executing p))
       \<and> (int (concurrentLimit p) \<le> activeProcessing p \<longrightarrow>
            (\<forall>e. \<exists>k. coordinator_run e (p, c) = (p\<lparr> coordinator := k \<rparr>, c)))
       \<and> (\<forall>task rest. activeProcessing p < int (concurrentLimit p) \<and> taskQueue p = task # rest \<longrightarrow>
            coordinator_run WaitSlot (p, c)
              = coordinator_run LoopHead (executeTask_begin task (length rest) (p\<lparr> taskQueue := rest \<rparr>, c))
            \<and> activeProcessing (fst (executeTask_begin task (length rest) (p\<lparr> taskQueue := rest \<rparr>, c)))
              = activeProcessing p + 1)"
proof -
  have inv: "pool_inv p"
    using pool_run_inv [OF assms] by (simp add: pool_inv_new)
  have lim: "concurrentLimit p = n"
    using pool_run_limit [OF assms] by (simp add: WorkerPool_new_def)
  have sat: "\<forall>e. \<exists>k. coordinator_run e (p, c) = (p\<lparr> coordinator := k \<rparr>, c)"
    if "int (concurrentLimit p) \<le> activeProcessing p"
    using coordinator_run_saturated [OF that] by blast
  have disp: "coordinator_run WaitSlot (p, c)
              = coordinator_run LoopHead (executeTask_begin task (length rest) (p\<lparr> taskQueue := rest \<rparr>, c))
            \<and> activeProcessing (fst (executeTask_begin task (length rest) (p\<lparr> taskQueue := rest \<rparr>, c)))
              = activeProcessing p + 1"
    if "activeProcessing p < int (concurrentLimit p)" "taskQueue p = task # rest" for task rest
    using that by (simp add: coordinator_run.simps executeTask_begin_frame)
  from inv lim sat disp show ?thesis
    unfolding pool_inv_def by (intro conjI impI allI) auto
qed

text \<open>
  C4 on a pool of 2 workers after three submissions and a wake-up: two tasks are in
  flight, one stays queued, and a further run of the coordinator only sleeps.
\<close>

theorem C4_in_flight_bound_witness:
  "\<exists>p. pool_run [Submit ''x'' (Some (js ''a'')), Submit ''y'' (Some (js ''b'')),
                 Submit ''z'' (Some (js ''c'')), Wake] (WorkerPool_new None 2, ()) = Some (p, ())
       \<and> activeProcessing p = 2 \<and> concurrentLimit p = 2 \<and> length (taskQueue p) = 1
       \<and> activeProcessing p \<le> int (concurrentLimit p)
       \<and> activeProcessing p = int (length (executing p))
       \<and> (\<exists>k. coordinator_run WaitSlot (p, ()) = (p\<lparr> coordinator := k \<rparr>, ()))"
proof -
  have "\<exists>p. pool_run [Submit ''x'' (Some (js ''a'')), Submit ''y'' (Some (js ''b'')),
                 Submit ''z'' (Some (js ''c'')), Wake] (WorkerPool_new None 2, ()) = Some (p, ())
       \<and> activeProcessing p = 2 \<and> concurrentLimit p = 2 \<and> length (taskQueue p) = 1"
    by (simp add: pool_eval)
  then obtain p where r: "pool_run [Submit ''x'' (Some (js ''a'')), Submit ''y'' (Some (js ''b'')),
                 Submit ''z'' (Some (js ''c'')), Wake] (WorkerPool_new None 2, ()) = Some (p, ())"
    and v: "activeProcessing p = 2" "concurrentLimit p = 2" "length (taskQueue p) = 1"
    by blast
  from C4_in_flight_bound [OF r] v
  have "activeProcessing p \<le> int (concurrentLimit p)"
    and "activeProcessing p = int (length (executing p))"
    and "\<exists>k. coordinator_run WaitSlot (p, ()) = (p\<lparr> coordinator := k \<rparr>, ())"
    by auto
  with r v show ?thesis by blast
qed

text \<open>
  Claim C6.  In every state the pool reaches from its constructor: when some worker is
  idle, \<open>getNextWorker\<close> returns an idle worker whose id is the lowest among the
  idle ones; when all workers are busy (and there is a worker), it returns a worker
  whose \<open>processed\<close> counter is minimal; in both cases the table it leaves has
  that worker's \<open>processed\<close> incremented by one, at selection; and the completion
  of a task (\<open>executeTask\<close> after the describer's answer) changes no \<open>processed\<close>
  counter.
\<close>

theorem C6_worker_selection:
  assumes "pool_run acts (WorkerPool_new env_url n, c0) = Some (p, c)"
  shows "((\<exists>j<length (workers p). \<not> busy (workers p ! j)) \<longrightarrow>
            (\<exists>i. getNextWorker (workers p)
                    = Some (i, (workers p)[i := (workers p ! i)\<lparr> processed := processed (workers p ! i) + 1 \<rparr>])
                \<and> i < length (workers p) \<and> \<not> busy (workers p ! i)
                \<and> (\<forall>j<length (workers p). \<not> busy (workers p ! j) \<longrightarrow>
                      id_w (workers p ! i) \<le> id_w (workers p ! j))))
       \<and> ((\<forall>j<length (workers p). busy (workers p ! j)) \<and> workers p \<noteq> [] \<longrightarrow>
            (\<exists>i. getNextWorker (workers p)
                    = Some (i, (workers p)[i := (workers p ! i)\<lparr> processed := processed (workers p ! i) + 1 \<rparr>])
                \<and> i < length (workers p)
                \<and> (\<forall>j<length (workers p). processed (workers p ! i) \<le> processed (workers p ! j))))
       \<and> (\<forall>k r. map processed (workers (executeTask_end k r p)) = map processed (workers p))"
proof -
  have inv: "pool_inv p"
    using pool_run_inv [OF assms] by (simp add: pool_inv_new)
  then have ids: "map id_w (workers p) = [0..<length (workers p)]" by (simp add: pool_inv_def)
  have id: "id_w (workers p ! j) = j" if "j < length (workers p)" for j
  proof -
    have "map id_w (workers p) ! j = [0..<length (workers p)] ! j" by (simp only: ids)
    with that show ?thesis by simp
  qed
  have A: "\<exists>i. getNextWorker (workers p)
                    = Some (i, (workers p)[i := (workers p ! i)\<lparr> processed := processed (workers p ! i) + 1 \<rparr>])
                \<and> i < length (workers p) \<and> \<not> busy (workers p ! i)
                \<and> (\<forall>j<length (workers p). \<not> busy (workers p ! j) \<longrightarrow>
                      id_w (workers p ! i) \<le> id_w (workers p ! j))"
    if "\<exists>j<length (workers p). \<not> busy (workers p ! j)"
  proof -
    from getNextWorker_idle [OF that] obtain i where
      g: "getNextWorker (workers p)
            = Some (i, (workers p)[i := (workers p ! i)\<lparr> processed := processed (workers p ! i) + 1 \<rparr>])"
      and i: "i < length (workers p)" "\<not> busy (workers p ! i)" and first: "\<forall>j<i. busy (workers p ! j)"
      by blast
    have "id_w (workers p ! i) \<le> id_w (workers p ! j)"
      if j: "j < length (workers p)" "\<not> busy (workers p ! j)" for j
    proof -
      from first j(2) have "i \<le> j" by (meson not_le)
      with id [OF i(1)] id [OF j(1)] show ?thesis by simp
    qed
    with g i show ?thesis by blast
  qed
  have B: "\<exists>i. getNextWorker (workers p)
                    = Some (i, (workers p)[i := (workers p ! i)\<lparr> processed := processed (workers p ! i) + 1 \<rparr>])
                \<and> i < length (workers p)
                \<and> (\<forall>j<length (workers p). processed (workers p ! i) \<le> processed (workers p ! j))"
    if "\<forall>j<length (workers p). busy (workers p ! j)" "workers p \<noteq> []"
    using getNextWorker_all_busy [OF that] .
  have C: "map processed (workers (executeTask_end k r p)) = map processed (workers p)" for k r
    by (simp add: executeTask_end_def Let_def processed_update_busy split: prod.split sum.split)
  from A B C show ?thesis by blast
qed

text \<open>
  C6 on a pool of 2 workers: after one submission worker 0 is busy and the selection
  picks the idle worker 1; with both busy and \<open>processed\<close> counters 2 and 1 it
  picks worker 1, the one with the smaller counter.
\<close>

theorem C6_worker_selection_witness:
  "(\<exists>p. pool_run [Submit ''x'' (Some (js ''a''))] (WorkerPool_new None 2, ()) = Some (p, ())
        \<and> map busy (workers p) = [True, False]
        \<and> (\<exists>ws'. getNextWorker (workers p) = Some (1, ws') \<and> map processed ws' = [1, 1]))
   \<and> (\<exists>p. pool_run [Submit ''x'' (Some (js ''a'')), Submit ''y'' (Some (js ''b'')),
                 Submit ''z'' (Some (js ''c'')), Wake, Answer 0 (Response ''a cat''), Wake]
               (WorkerPool_new None 2, ()) = Some (p, ())
        \<and> map busy (workers p) = [True, True] \<and> map processed (workers p) = [2, 1]
        \<and> (\<exists>ws'. getNextWorker (workers p) = Some (1, ws') \<and> map processed ws' = [2, 2])
        \<and> map processed (workers (executeTask_end 0 (Response ''a dog'') p)) = [2, 1])"
proof -
  have "\<exists>p. pool_run [Submit ''x'' (Some (js ''a''))] (WorkerPool_new None 2, ()) = Some (p, ())
        \<and> workers p = [\<lparr> id_w = 0, busy = True, processed = 1 \<rparr>, \<lparr> id_w = 1, busy = False, processed = 0 \<rparr>]"
    by (simp add: pool_eval)
  then obtain p where r: "pool_run [Submit ''x'' (Some (js ''a''))] (WorkerPool_new None 2, ()) = Some (p, ())"
    and w: "workers p = [\<lparr> id_w = 0, busy = True, processed = 1 \<rparr>, \<lparr> id_w = 1, busy = False, processed = 0 \<rparr>]"
    by blast
  have idle: "\<exists>j<length (workers p). \<not> busy (workers p ! j)"
    by (rule exI [of _ 1]) (simp add: w)
  from C6_worker_selection [OF r] idle obtain i where
    g: "getNextWorker (workers p)
          = Some (i, (workers p)[i := (workers p ! i)\<lparr> processed := processed (workers p ! i) + 1 \<rparr>])"
    and i: "i < length (workers p)" "\<not> busy (workers p ! i)"
    by blast
  from i w have "i = 1" by (cases i) auto
  with g w have 1: "\<exists>ws'. getNextWorker (workers p) = Some (1, ws') \<and> map processed ws' = [1, 1]"
    by simp
  have "\<exists>q. pool_run [Submit ''x'' (Some (js ''a'')), Submit ''y'' (Some (js ''b'')),
                 Submit ''z'' (Some (js ''c'')), Wake, Answer 0 (Response ''a cat''), Wake]
               (WorkerPool_new None 2, ()) = Some (q, ())
        \<and> workers q = [\<lparr> id_w = 0, busy = True, processed = 2 \<rparr>, \<lparr> id_w = 1, busy = True, processed = 1 \<rparr>]"
    by (simp add: pool_eval)
  then obtain q where rq: "pool_run [Submit ''x'' (Some (js ''a'')), Submit ''y'' (Some (js ''b'')),
                 Submit ''z'' (Some (js ''c'')), Wake, Answer 0 (Response ''a cat''), Wake]
               (WorkerPool_new None 2, ()) = Some (q, ())"
    and wq: "workers q = [\<lparr> id_w = 0, busy = True, processed = 2 \<rparr>, \<lparr> id_w = 1, busy = True, processed = 1 \<rparr>]"
    by blast
  have allbusy: "\<forall>j<length (workers q). busy (workers q ! j)"
    by (simp add: wq less_Suc_eq)
  from C6_worker_selection [OF rq] allbusy wq obtain k where
    gk: "getNextWorker (workers q)
          = Some (k, (workers q)[k := (workers q ! k)\<lparr> processed := processed (workers q ! k) + 1 \<rparr>])"
    and k: "k < length (workers q)" "\<forall>j<length (workers q). processed (workers q ! k) \<le> processed (workers q ! j)"
    and fin: "map processed (workers (executeTask_end 0 (Response ''a dog'') q)) = map processed (workers q)"
    by auto
  from k(2) [rule_format, of 1] k(1) wq have "k = 1" by (cases k) auto
  with gk wq have 2: "\<exists>ws'. getNextWorker (workers q) = Some (1, ws') \<and> map processed ws' = [2, 2]"
    by simp
  from r w 1 rq wq 2 fin show ?thesis
    by (intro conjI exI [of _ p] exI [of _ q]) simp_all
qed

section \<open>The dispatcher: what the pool does to its client\<close>

lemma executeTask_begin_client:
  assumes "\<forall>cb. onAssignCallback p = Some cb \<longrightarrow> (\<forall>w q i c. Q c \<longrightarrow> Q (cb w q i c))" and "Q c"
  shows "Q (snd (executeTask_begin task n (p, c)))"
proof (cases "getNextWorker (workers p)")
  case None
  with assms(2) show ?thesis by (simp add: executeTask_begin_def Let_def)
next
  case (Some r)
  obtain i ws where r: "r = (i, ws)" by (cases r)
  show ?thesis
  proof (cases "onAssignCallback p")
    case None
    with Some r assms(2) show ?thesis by (simp add: executeTask_begin_def Let_def)
  next
    case (Some cb)
    with assms have "Q (cb w q i c)" for w q i by blast
    with Some \<open>getNextWorker (workers p) = Some r\<close> r show ?thesis
      by (simp add: executeTask_begin_def Let_def)
  qed
qed


lemma coordinator_run_client:
  "(\<forall>cb. onAssignCallback (fst s) = Some cb \<longrightarrow> (\<forall>w q i c. Q c \<longrightarrow> Q (cb w q i c)))
     \<Longrightarrow> Q (snd s) \<Longrightarrow> Q (snd (coordinator_run e s))"
proof (induction e s rule: coordinator_run.induct)
  case (1 p c)
  then show ?case by (simp add: coordinator_run.simps)
next
  case (2 p c)
  show ?case
  proof (cases "int (concurrentLimit p) \<le> activeProcessing p")
    case True
    with 2 show ?thesis by (simp add: coordinator_run.simps)
  next
    case False
    show ?thesis
    proof (cases "taskQueue p")
      case Nil
      with False 2 show ?thesis by (simp add: coordinator_run.simps)
    next
      case (Cons task rest)
      let ?s' = "executeTask_begin task (length (task # rest) - 1) (p\<lparr> taskQueue := rest \<rparr>, c)"
      have cb: "\<forall>cb. onAssignCallback (fst ?s') = Some cb \<longrightarrow> (\<forall>w q i c. Q c \<longrightarrow> Q (cb w q i c))"
        using "2.prems"(1) by (simp add: executeTask_begin_frame)
      have q: "Q (snd ?s')"
      proof (rule executeTask_begin_client)
        show "\<forall>cb. onAssignCallback (p\<lparr> taskQueue := rest \<rparr>) = Some cb
                \<longrightarrow> (\<forall>w q i c. Q c \<longrightarrow> Q (cb w q i c))"
          using "2.prems"(1) by simp
        show "Q c" using "2.prems"(2) by simp
      qed
      from "2.IH"(2) [OF False Cons cb q] False Cons show ?thesis
        by (simp add: coordinator_run.simps)
    qed
  qed
qed






section \<open>The dispatcher: every action keeps the counters balanced\<close>

lemma safeWrite_frame [simp]:
  "main (safeWrite e d) = main d"
  "images (safeWrite e d) = images d"
  "imageIds (safeWrite e d) = imageIds d"
  "stats (safeWrite e d) = stats d"
  "callbacks (safeWrite e d) = callbacks d"
  "chains (safeWrite e d) = chains d"
  "imageMetadata (safeWrite e d) = imageMetadata d"
  "imageTaskData (safeWrite e d) = imageTaskData d"
  "streamClosed (safeWrite e d) = streamClosed d"
  by (simp_all add: safeWrite_def)

lemma ev_ok_simps [simp]:
  "ev_ok n (StatsEvent st) = (balanced st \<and> total st = n)"
  "ev_ok n (LogEvent l)"
  "ev_ok n (WorkersEvent ws)"
  "ev_ok n (PartitionsEvent ps)"
  "ev_ok n (ResultEvent r)"
  "ev_ok n (ErrorEvent m)"
  by (simp_all add: ev_ok_def)


















lemma running_not_Start: "running n d \<Longrightarrow> main d \<noteq> Start"
  by (simp add: running_def)













section \<open>Claims about the dispatcher's stream\<close>

text \<open>
  A batch of one image with id \<open>a\<close> whose describe call fails: the run of the system
  from the arrival of the request to the closing of the stream, with the results and
  the \<open>stats\<close> events the stream then holds.
\<close>

lemma failing_batch_run:
  "\<exists>s. run (\<lambda>v. 0)
      [Resume, Resume, Resume, Resume, Resume, Resume, Resume, Resume, Resume, Resume,
       ResumeCallback 0, ResumeCallback 0, ResumeCallback 0, ResumeCallback 0,
       Describer 0 (AxiosError ''timeout''),
       ResumeChain 0, ResumeChain 0, ResumeChain 0, ResumeChain 0,
       Resume, Resume, Resume, Resume]
      (fresh None 0 [\<lparr> name_f = ''a.jpg'', size_f = 3, base64_f = ''QUJD'' \<rparr>] [[97]]) = Some s
     \<and> main (disp s) = Closed
     \<and> results (out (disp s)) =
         [\<lparr> id_r = [97], status = StatusProcessing, description = None, partition_r = Some 1,
            workerThread = Some 0, processingTime = None, error_r = None \<rparr>,
          \<lparr> id_r = [97], status = StatusError, description = None, partition_r = None,
            workerThread = None, processingTime = Some 0,
            error_r = Some ''Ollama API error: timeout. Check that Ollama is running at http://ollama:11434'' \<rparr>]
     \<and> stats_events (out (disp s)) =
         [\<lparr> total = 1, completed = 0, pending = 1, processing = 0, errors = 0 \<rparr>,
          \<lparr> total = 1, completed = 0, pending = 0, processing = 1, errors = 0 \<rparr>,
          \<lparr> total = 1, completed = 0, pending = 0, processing = 0, errors = 1 \<rparr>]"
  by (simp add: disp_eval pool_eval store_eval hash_eval results_def stats_events_def)



text \<open>
  Claim C7 at a batch of one image whose describe call fails with the HTTP client's
  error \<open>timeout\<close>: the terminal result on the stream has status \<open>error\<close> and
  carries the error message, and it carries neither the partition nor the worker id,
  although the \<open>processing\<close> result before it named partition 1 and worker 0.
\<close>

theorem C7_error_result_lacks_partition_and_worker:
  "\<exists>s. run (\<lambda>v. 0)
      [Resume, Resume, Resume, Resume, Resume, Resume, Resume, Resume, Resume, Resume,
       ResumeCallback 0, ResumeCallback 0, ResumeCallback 0, ResumeCallback 0,
       Describer 0 (AxiosError ''timeout''),
       ResumeChain 0, ResumeChain 0, ResumeChain 0, ResumeChain 0,
       Resume, Resume, Resume, Resume]
      (fresh None 0 [\<lparr> name_f = ''a.jpg'', size_f = 3, base64_f = ''QUJD'' \<rparr>] [[97]]) = Some s
     \<and> filter terminal (results (out (disp s))) =
         [\<lparr> id_r = [97], status = StatusError, description = None, partition_r = None,
            workerThread = None, processingTime = Some 0,
            error_r = Some ''Ollama API error: timeout. Check that Ollama is running at http://ollama:11434'' \<rparr>]
     \<and> map partition_r (filter (\<lambda>r. status r = StatusProcessing) (results (out (disp s)))) = [Some 1]
     \<and> map workerThread (filter (\<lambda>r. status r = StatusProcessing) (results (out (disp s)))) = [Some 0]"
proof -
  from failing_batch_run obtain s where
    r: "run (\<lambda>v. 0)
      [Resume, Resume, Resume, Resume, Resume, Resume, Resume, Resume, Resume, Resume,
       ResumeCallback 0, ResumeCallback 0, ResumeCallback 0, ResumeCallback 0,
       Describer 0 (AxiosError ''timeout''),
       ResumeChain 0, ResumeChain 0, ResumeChain 0, ResumeChain 0,
       Resume, Resume, Resume, Resume]
      (fresh None 0 [\<lparr> name_f = ''a.jpg'', size_f = 3, base64_f = ''QUJD'' \<rparr>] [[97]]) = Some s"
    and res: "results (out (disp s)) =
         [\<lparr> id_r = [97], status = StatusProcessing, description = None, partition_r = Some 1,
            workerThread = Some 0, processingTime = None, error_r = None \<rparr>,
          \<lparr> id_r = [97], status = StatusError, description = None, partition_r = None,
            workerThread = None, processingTime = Some 0,
            error_r = Some ''Ollama API error: timeout. Check that Ollama is running at http://ollama:11434'' \<rparr>]"
    by blast
  have t: "filter terminal (results (out (disp s))) =
         [\<lparr> id_r = [97], status = StatusError, description = None, partition_r = None,
            workerThread = None, processingTime = Some 0,
            error_r = Some ''Ollama API error: timeout. Check that Ollama is running at http://ollama:11434'' \<rparr>]"
    and pa: "map partition_r (filter (\<lambda>r. status r = StatusProcessing) (results (out (disp s)))) = [Some 1]"
    and wo: "map workerThread (filter (\<lambda>r. status r = StatusProcessing) (results (out (disp s)))) = [Some 0]"
    unfolding res by (simp_all add: terminal_def)
  show ?thesis
    by (rule exI [of _ s]) (intro conjI r t pa wo)
qed

section \<open>The dispatcher: terminal results and promise chains\<close>

subsection \<open>Results on the stream and settled chains\<close>

lemma results_append [simp]: "results (xs @ ys) = results xs @ results ys"
  by (simp add: results_def)

lemma results_single [simp]:
  "results [StatsEvent st] = []"
  "results [LogEvent l] = []"
  "results [WorkersEvent ws] = []"
  "results [PartitionsEvent ps] = []"
  "results [ResultEvent r] = [r]"
  "results [ErrorEvent m] = []"
  by (simp_all add: results_def)


lemma result_ids_single [simp]:
  "result_ids P [StatsEvent st] = []"
  "result_ids P [LogEvent l] = []"
  "result_ids P [WorkersEvent ws] = []"
  "result_ids P [PartitionsEvent ps] = []"
  "result_ids P [ResultEvent r] = (if P r then [id_r r] else [])"
  "result_ids P [ErrorEvent m] = []"
  by (simp_all add: result_ids_def)


lemma is_error_simps [simp]:
  "\<not> is_error (StatsEvent st)"
  "\<not> is_error (LogEvent l)"
  "\<not> is_error (WorkersEvent ws)"
  "\<not> is_error (PartitionsEvent ps)"
  "\<not> is_error (ResultEvent r)"
  "is_error (ErrorEvent m)"
  by (simp_all add: is_error_def)

lemma settled_Nil [simp]: "settled ts [] = []" "settled [] cs = []"
  by (simp_all add: settled_def)

lemma settled_Cons [simp]:
  "settled (t # ts) (c # cs) = (if chain_pc c \<noteq> AwaitPool then imageId_t t # settled ts cs else settled ts cs)"
  by (simp add: settled_def)






subsection \<open>What the pool leaves alone in the handler\<close>

lemma onAssign_frame [simp]:
  "images (onAssign w q i d) = images d"
  "imageIds (onAssign w q i d) = imageIds d"
  "main (onAssign w q i d) = main d"
  "chains (onAssign w q i d) = chains d"
  "imageTaskData (onAssign w q i d) = imageTaskData d"
  "imageMetadata (onAssign w q i d) = imageMetadata d"
  "streamClosed (onAssign w q i d) = streamClosed d"
  "stats (onAssign w q i d) = stats d"
  "callbacks (onAssign w q i d) = callbacks d @ [\<lparr> cb_pc = CbLog, cb_workerId = w, cb_imageId = i \<rparr>]"
  "results (out (onAssign w q i d)) = results (out d)"
  "result_ids P (out (onAssign w q i d)) = result_ids P (out d)"
  "has_error (out (onAssign w q i d)) = has_error (out d)"
  by (simp_all add: onAssign_def safeWrite_def has_error_def result_ids_def)

lemma same_request_refl [simp]: "same_request d d"
  by (simp add: same_request_def)

lemma same_request_onAssign: "same_request d c \<Longrightarrow> same_request d (onAssign w q i c)"
  by (simp add: same_request_def)




lemma coordinator_run_same:
  assumes "onAssignCallback p = None \<or> onAssignCallback p = Some onAssign"
  shows "same_request d (snd (coordinator_run e (p, d)))"
  by (rule coordinator_run_client) (use assms in \<open>auto simp: same_request_onAssign\<close>)




subsection \<open>Callback invocations and promise chains\<close>

lemma set_cb_frame [simp]:
  "images (set_cb j pc d) = images d"
  "imageIds (set_cb j pc d) = imageIds d"
  "main (set_cb j pc d) = main d"
  "chains (set_cb j pc d) = chains d"
  "imageTaskData (set_cb j pc d) = imageTaskData d"
  "imageMetadata (set_cb j pc d) = imageMetadata d"
  "streamClosed (set_cb j pc d) = streamClosed d"
  "stats (set_cb j pc d) = stats d"
  "out (set_cb j pc d) = out d"
  "callbacks (set_cb j pc d) = (callbacks d)[j := (callbacks d ! j)\<lparr> cb_pc := pc \<rparr>]"
  by (simp_all add: set_cb_def)

lemma set_chain_frame [simp]:
  "images (set_chain j pc d) = images d"
  "imageIds (set_chain j pc d) = imageIds d"
  "main (set_chain j pc d) = main d"
  "callbacks (set_chain j pc d) = callbacks d"
  "imageTaskData (set_chain j pc d) = imageTaskData d"
  "imageMetadata (set_chain j pc d) = imageMetadata d"
  "streamClosed (set_chain j pc d) = streamClosed d"
  "stats (set_chain j pc d) = stats d"
  "out (set_chain j pc d) = out d"
  "chains (set_chain j pc d) = (chains d)[j := (chains d ! j)\<lparr> chain_pc := pc \<rparr>]"
  by (simp_all add: set_chain_def)

lemma terminal_simps [simp]:
  "terminal \<lparr> id_r = i, status = StatusProcessing, description = a, partition_r = b,
              workerThread = c, processingTime = e, error_r = f \<rparr> = False"
  "terminal \<lparr> id_r = i, status = StatusCompleted, description = a, partition_r = b,
              workerThread = c, processingTime = e, error_r = f \<rparr> = True"
  "terminal \<lparr> id_r = i, status = StatusError, description = a, partition_r = b,
              workerThread = c, processingTime = e, error_r = f \<rparr> = True"
  by (simp_all add: terminal_def)







subsection \<open>The handler's own steps\<close>








subsection \<open>Every action, every run\<close>










section \<open>The dispatcher: assignments and \<open>processing\<close> results\<close>

subsection \<open>A run of the coordinator announces each task it dispatches\<close>

lemma assigned_Nil [simp]: "assigned [] = []"
  by (simp add: assigned_def)

lemma assigned_append [simp]: "assigned (xs @ ys) = assigned xs @ assigned ys"
  by (simp add: assigned_def)

lemma assigned_Cons [simp]:
  "assigned (cb # cbs) = (if cb_pc cb \<noteq> CbLog then cb_imageId cb # assigned cbs else assigned cbs)"
  by (simp add: assigned_def)




lemma announced_onAssign [simp]:
  "announced p (onAssign w q i d) = map cb_imageId (callbacks d) @ i # map imageId (taskQueue p)"
  by (simp add: announced_def)




subsection \<open>The handler's own steps\<close>



lemma is_processing_simps [simp]:
  "is_processing \<lparr> id_r = i, status = StatusProcessing, description = a, partition_r = b,
              workerThread = c, processingTime = e, error_r = f \<rparr> = True"
  "is_processing \<lparr> id_r = i, status = StatusCompleted, description = a, partition_r = b,
              workerThread = c, processingTime = e, error_r = f \<rparr> = False"
  "is_processing \<lparr> id_r = i, status = StatusError, description = a, partition_r = b,
              workerThread = c, processingTime = e, error_r = f \<rparr> = False"
  by (simp_all add: is_processing_def)



subsection \<open>Every action, every run\<close>





lemma taskQueue_executeTask_end [simp]:
  "taskQueue (executeTask_end n r p) = taskQueue p"
  by (simp add: executeTask_end_def Let_def split: prod.split sum.split)








subsection \<open>Results are results of the batch\<close>











section \<open>Claims about the \<open>result\<close> events of a task\<close>





text \<open>
  The order of the two results of a task is not fixed by the code.  The assignment
  callback writes the \<open>processing\<close> result after its first \<open>await\<close>, the
  write of its \<open>log\<close> event; nothing makes the chain of the task wait for that.
  In this run the describer fails and the \<open>catch\<close> handler runs while the
  callback still awaits its write: the \<open>error\<close> result of \<open>a\<close> precedes its
  \<open>processing\<close> result, and the counters end with \<open>pending = -1\<close> and
  \<open>processing = 1\<close>.
\<close>

lemma processing_after_terminal_run:
  "\<exists>s. run (\<lambda>v. 0)
      [Resume, Resume, Resume, Resume, Resume, Resume, Resume, Resume, Resume, Resume,
       Describer 0 (AxiosError ''timeout''),
       ResumeChain 0,
       ResumeCallback 0, ResumeCallback 0, ResumeCallback 0, ResumeCallback 0,
       ResumeChain 0, ResumeChain 0, ResumeChain 0,
       Resume, Resume, Resume, Resume]
      (fresh None 0 [\<lparr> name_f = ''a.jpg'', size_f = 3, base64_f = ''QUJD'' \<rparr>] [[97]]) = Some s
     \<and> main (disp s) = Closed
     \<and> map status (results (out (disp s))) = [StatusError, StatusProcessing]
     \<and> map id_r (results (out (disp s))) = [[97], [97]]
     \<and> stats (disp s) = \<lparr> total = 1, completed = 0, pending = - 1, processing = 1, errors = 1 \<rparr>"
  by (simp add: disp_eval pool_eval store_eval hash_eval results_def)

end
